theory Spec2Isabelle
  imports Main "HOL-Library.Word" "HOL-Library.Monad_Syntax"
begin

section \<open>The memory model\<close>

text \<open>
  The container of \<^verbatim>\<open>src/map.hpp\<close> is a height-balanced search tree of heap nodes
  that point to their children and to their parent. The model keeps the pointers: a
  pointer is an address or null, the heap is a partial map from addresses to node
  objects, and every function of the source is a function on the heap and on the fields
  of the map object it is called on.

  A function of the model returns an \<open>option\<close>. \<open>None\<close> is an execution without a
  defined result: it dereferences a null pointer or a pointer to a deallocated node
  (undefined behaviour in C++), or its loop does not terminate. An exception is a value:
  \<open>Throws e\<close>.
\<close>

type_synonym addr = nat
type_synonym ptr = "addr option"

text \<open>\<^verbatim>\<open>class Node\<close>: the field \<open>val\<close> is the source's \<^verbatim>\<open>value\<close>, the pair of the key and
  the mapped value.\<close>

record ('k, 'v) Node =
  val :: "'k \<times> 'v"
  left :: ptr
  right :: ptr
  parent :: ptr
  height :: int

text \<open>The free store. \<open>nxt\<close> is the address the next \<^verbatim>\<open>new\<close> returns (addresses are not
  reused), \<open>avail\<close> the number of nodes the allocator can still hand out: \<^verbatim>\<open>new\<close> throws
  \<^verbatim>\<open>std::bad_alloc\<close> when it is zero.\<close>

record ('k, 'v) heap =
  cells :: "addr \<rightharpoonup> ('k, 'v) Node"
  nxt :: addr
  avail :: nat

text \<open>The data members of \<^verbatim>\<open>class map\<close>; \<^verbatim>\<open>size_t\<close> is taken to be 64 bits wide.\<close>

record 'k mapobj =
  root :: ptr
  nodeCount :: "64 word"
  cmp :: "'k \<Rightarrow> 'k \<Rightarrow> bool"

text \<open>\<^verbatim>\<open>class iterator\<close> and \<^verbatim>\<open>class const_iterator\<close> have the same two members and the
  same code; \<open>owner\<close> is the address of the map object.\<close>

record iterator =
  nodePtr :: ptr
  owner :: ptr

datatype exn = invalid_iterator | index_out_of_bound | bad_alloc

datatype 'a result = Returns 'a | Throws exn

text \<open>Reading and writing a member through a pointer: \<^verbatim>\<open>p->f\<close> and \<^verbatim>\<open>p->f = x\<close>.\<close>

definition rd :: "('k, 'v) heap \<Rightarrow> ptr \<Rightarrow> (('k, 'v) Node \<Rightarrow> 'a) \<Rightarrow> 'a option" where
  "rd h p f = do { a \<leftarrow> p; n \<leftarrow> cells h a; Some (f n) }"

definition wr :: "('k, 'v) heap \<Rightarrow> ptr \<Rightarrow> (('k, 'v) Node \<Rightarrow> ('k, 'v) Node) \<Rightarrow> ('k, 'v) heap option" where
  "wr h p f = do { a \<leftarrow> p; n \<leftarrow> cells h a; Some (h\<lparr>cells := (cells h)(a \<mapsto> f n)\<rparr>) }"

text \<open>\<^verbatim>\<open>new Node(v, p)\<close>, with the constructor's initial values.\<close>

definition new_Node :: "('k, 'v) heap \<Rightarrow> 'k \<times> 'v \<Rightarrow> ptr \<Rightarrow> ('k, 'v) heap \<times> ptr result" where
  "new_Node h v p =
     (if avail h = 0 then (h, Throws bad_alloc)
      else (h\<lparr>cells := (cells h)(nxt h \<mapsto> \<lparr>val = v, left = None, right = None, parent = p, height = 1\<rparr>),
              nxt := nxt h + 1, avail := avail h - 1\<rparr>,
            Returns (Some (nxt h))))"

text \<open>\<^verbatim>\<open>delete p\<close>: nothing for a null pointer, undefined for a node that is not allocated.\<close>

definition delete_Node :: "('k, 'v) heap \<Rightarrow> ptr \<Rightarrow> ('k, 'v) heap option" where
  "delete_Node h p =
     (case p of None \<Rightarrow> Some h
      | Some a \<Rightarrow> do { n \<leftarrow> cells h a; Some (h\<lparr>cells := (cells h)(a := None), avail := avail h + 1\<rparr>) })"

section \<open>The private helpers\<close>

partial_function (option) minNode_loop :: "('k, 'v) heap \<Rightarrow> ptr \<Rightarrow> ptr option" where
  "minNode_loop h x = do { l \<leftarrow> rd h x left; if l \<noteq> None then minNode_loop h l else Some x }"

declare minNode_loop.simps [code]

definition minNode :: "('k, 'v) heap \<Rightarrow> ptr \<Rightarrow> ptr option" where
  "minNode h x = (if x = None then Some None else minNode_loop h x)"

partial_function (option) maxNode_loop :: "('k, 'v) heap \<Rightarrow> ptr \<Rightarrow> ptr option" where
  "maxNode_loop h x = do { r \<leftarrow> rd h x right; if r \<noteq> None then maxNode_loop h r else Some x }"

declare maxNode_loop.simps [code]

definition maxNode :: "('k, 'v) heap \<Rightarrow> ptr \<Rightarrow> ptr option" where
  "maxNode h x = (if x = None then Some None else maxNode_loop h x)"

definition keyEq :: "'k mapobj \<Rightarrow> 'k \<Rightarrow> 'k \<Rightarrow> bool" where
  "keyEq m a b = (\<not> cmp m a b \<and> \<not> cmp m b a)"

partial_function (option) findNode_loop :: "('k, 'v) heap \<Rightarrow> 'k mapobj \<Rightarrow> 'k \<Rightarrow> ptr \<Rightarrow> ptr option" where
  "findNode_loop h m key cur =
     (if cur = None then Some None
      else do {
        k \<leftarrow> rd h cur (\<lambda>n. fst (val n));
        if keyEq m key k then Some cur
        else if cmp m key k then do { l \<leftarrow> rd h cur left; findNode_loop h m key l }
        else do { r \<leftarrow> rd h cur right; findNode_loop h m key r } })"

declare findNode_loop.simps [code]

definition findNode :: "('k, 'v) heap \<Rightarrow> 'k mapobj \<Rightarrow> 'k \<Rightarrow> ptr option" where
  "findNode h m key = findNode_loop h m key (root m)"

text \<open>The member \<^verbatim>\<open>height\<close> and the values of \<^verbatim>\<open>heightOf\<close> and \<^verbatim>\<open>balance\<close> are \<^verbatim>\<open>int\<close>: 32 bits. A
  height is kept as the integer it stands for, and every value the code computes for one
  goes through \<open>int32\<close>, the value of the 32-bit two's complement result (an overflow of
  \<^verbatim>\<open>int\<close> is undefined in the language; the compiled code wraps around).\<close>

definition int32 :: "int \<Rightarrow> int" where
  "int32 x = (x + 2147483648) mod 4294967296 - 2147483648"

definition heightOf :: "('k, 'v) heap \<Rightarrow> ptr \<Rightarrow> int option" where
  "heightOf h n = (if n \<noteq> None then rd h n height else Some 0)"

definition update :: "('k, 'v) heap \<Rightarrow> ptr \<Rightarrow> ('k, 'v) heap option" where
  "update h n =
     (if n = None then Some h
      else do {
        l \<leftarrow> rd h n left;
        hl \<leftarrow> heightOf h l;
        r \<leftarrow> rd h n right;
        hr \<leftarrow> heightOf h r;
        wr h n (\<lambda>x. x\<lparr>height := int32 ((if hl > hr then hl else hr) + 1)\<rparr>) })"

definition balance :: "('k, 'v) heap \<Rightarrow> ptr \<Rightarrow> int option" where
  "balance h n = do {
     r \<leftarrow> rd h n right;
     hr \<leftarrow> heightOf h r;
     l \<leftarrow> rd h n left;
     hl \<leftarrow> heightOf h l;
     Some (int32 (hr - hl)) }"

text \<open>The three-way store that ends both rotations and \<^verbatim>\<open>transplant\<close>:
  \<^verbatim>\<open>if (p == nullptr) root = v; else if (p->left == u) p->left = v; else p->right = v;\<close>\<close>

definition relink :: "('k, 'v) heap \<Rightarrow> 'k mapobj \<Rightarrow> ptr \<Rightarrow> ptr \<Rightarrow> ptr \<Rightarrow> (('k, 'v) heap \<times> 'k mapobj) option" where
  "relink h m p u v =
     (if p = None then Some (h, m\<lparr>root := v\<rparr>)
      else do {
        pl \<leftarrow> rd h p left;
        if pl = u then do { h \<leftarrow> wr h p (\<lambda>n. n\<lparr>left := v\<rparr>); Some (h, m) }
        else do { h \<leftarrow> wr h p (\<lambda>n. n\<lparr>right := v\<rparr>); Some (h, m) } })"

definition rotateLeft :: "('k, 'v) heap \<Rightarrow> 'k mapobj \<Rightarrow> ptr \<Rightarrow> (('k, 'v) heap \<times> 'k mapobj \<times> ptr) option" where
  "rotateLeft h m x = do {
     y \<leftarrow> rd h x right;
     B \<leftarrow> rd h y left;
     h \<leftarrow> wr h y (\<lambda>n. n\<lparr>left := x\<rparr>);
     h \<leftarrow> wr h x (\<lambda>n. n\<lparr>right := B\<rparr>);
     h \<leftarrow> (if B \<noteq> None then wr h B (\<lambda>n. n\<lparr>parent := x\<rparr>) else Some h);
     p \<leftarrow> rd h x parent;
     h \<leftarrow> wr h y (\<lambda>n. n\<lparr>parent := p\<rparr>);
     h \<leftarrow> wr h x (\<lambda>n. n\<lparr>parent := y\<rparr>);
     (h, m) \<leftarrow> relink h m p x y;
     h \<leftarrow> update h x;
     h \<leftarrow> update h y;
     Some (h, m, y) }"

definition rotateRight :: "('k, 'v) heap \<Rightarrow> 'k mapobj \<Rightarrow> ptr \<Rightarrow> (('k, 'v) heap \<times> 'k mapobj \<times> ptr) option" where
  "rotateRight h m y = do {
     x \<leftarrow> rd h y left;
     B \<leftarrow> rd h x right;
     h \<leftarrow> wr h x (\<lambda>n. n\<lparr>right := y\<rparr>);
     h \<leftarrow> wr h y (\<lambda>n. n\<lparr>left := B\<rparr>);
     h \<leftarrow> (if B \<noteq> None then wr h B (\<lambda>n. n\<lparr>parent := y\<rparr>) else Some h);
     p \<leftarrow> rd h y parent;
     h \<leftarrow> wr h x (\<lambda>n. n\<lparr>parent := p\<rparr>);
     h \<leftarrow> wr h y (\<lambda>n. n\<lparr>parent := x\<rparr>);
     (h, m) \<leftarrow> relink h m p y x;
     h \<leftarrow> update h y;
     h \<leftarrow> update h x;
     Some (h, m, x) }"

definition rebalanceAt :: "('k, 'v) heap \<Rightarrow> 'k mapobj \<Rightarrow> ptr \<Rightarrow> (('k, 'v) heap \<times> 'k mapobj) option" where
  "rebalanceAt h m n =
     (if n = None then Some (h, m)
      else do {
        h \<leftarrow> update h n;
        bf \<leftarrow> balance h n;
        if bf > 1 then do {
          r \<leftarrow> rd h n right;
          br \<leftarrow> balance h r;
          (h, m) \<leftarrow> (if br < 0 then do {
                        r \<leftarrow> rd h n right;
                        (h, m, u) \<leftarrow> rotateRight h m r;
                        Some (h, m) }
                      else Some (h, m));
          (h, m, u) \<leftarrow> rotateLeft h m n;
          Some (h, m) }
        else if bf < - 1 then do {
          l \<leftarrow> rd h n left;
          bl \<leftarrow> balance h l;
          (h, m) \<leftarrow> (if bl > 0 then do {
                        l \<leftarrow> rd h n left;
                        (h, m, u) \<leftarrow> rotateLeft h m l;
                        Some (h, m) }
                      else Some (h, m));
          (h, m, u) \<leftarrow> rotateRight h m n;
          Some (h, m) }
        else Some (h, m) })"

partial_function (option) rebalanceUp :: "('k, 'v) heap \<Rightarrow> 'k mapobj \<Rightarrow> ptr \<Rightarrow> (('k, 'v) heap \<times> 'k mapobj) option" where
  "rebalanceUp h m cur =
     (if cur = None then Some (h, m)
      else do {
        (h, m) \<leftarrow> rebalanceAt h m cur;
        p \<leftarrow> rd h cur parent;
        rebalanceUp h m p })"

declare rebalanceUp.simps [code]

partial_function (option) destroySubtree :: "('k, 'v) heap \<Rightarrow> ptr \<Rightarrow> ('k, 'v) heap option" where
  "destroySubtree h n =
     (if n = None then Some h
      else do {
        l \<leftarrow> rd h n left;
        h \<leftarrow> destroySubtree h l;
        r \<leftarrow> rd h n right;
        h \<leftarrow> destroySubtree h r;
        delete_Node h n })"

declare destroySubtree.simps [code]

text \<open>\<^verbatim>\<open>cloneSubtree\<close> allocates, so it can throw; the heap it returns then holds the
  nodes it had allocated before.\<close>

partial_function (option) cloneSubtree :: "('k, 'v) heap \<Rightarrow> ptr \<Rightarrow> ptr \<Rightarrow> (('k, 'v) heap \<times> ptr result) option" where
  "cloneSubtree h n par =
     (if n = None then Some (h, Returns None)
      else do {
        v \<leftarrow> rd h n val;
        case new_Node h v par of
          (h, Throws e) \<Rightarrow> Some (h, Throws e)
        | (h, Returns m) \<Rightarrow> do {
            l \<leftarrow> rd h n left;
            (h, cl) \<leftarrow> cloneSubtree h l m;
            case cl of
              Throws e \<Rightarrow> Some (h, Throws e)
            | Returns l' \<Rightarrow> do {
                h \<leftarrow> wr h m (\<lambda>x. x\<lparr>left := l'\<rparr>);
                r \<leftarrow> rd h n right;
                (h, cr) \<leftarrow> cloneSubtree h r m;
                case cr of
                  Throws e \<Rightarrow> Some (h, Throws e)
                | Returns r' \<Rightarrow> do {
                    h \<leftarrow> wr h m (\<lambda>x. x\<lparr>right := r'\<rparr>);
                    h \<leftarrow> update h m;
                    Some (h, Returns m) } } } })"

declare cloneSubtree.simps [code]

partial_function (option) nextNode_loop :: "('k, 'v) heap \<Rightarrow> ptr \<Rightarrow> ptr \<Rightarrow> ptr option" where
  "nextNode_loop h n p =
     (if p = None then Some p
      else do {
        r \<leftarrow> rd h p right;
        if n = r then do { pp \<leftarrow> rd h p parent; nextNode_loop h p pp } else Some p })"

declare nextNode_loop.simps [code]

definition nextNode :: "('k, 'v) heap \<Rightarrow> ptr \<Rightarrow> ptr option" where
  "nextNode h n =
     (if n = None then Some None
      else do {
        r \<leftarrow> rd h n right;
        if r \<noteq> None then minNode h r
        else do { p \<leftarrow> rd h n parent; nextNode_loop h n p } })"

partial_function (option) prevNode_loop :: "('k, 'v) heap \<Rightarrow> ptr \<Rightarrow> ptr \<Rightarrow> ptr option" where
  "prevNode_loop h n p =
     (if p = None then Some p
      else do {
        l \<leftarrow> rd h p left;
        if n = l then do { pp \<leftarrow> rd h p parent; prevNode_loop h p pp } else Some p })"

declare prevNode_loop.simps [code]

definition prevNode :: "('k, 'v) heap \<Rightarrow> ptr \<Rightarrow> ptr option" where
  "prevNode h n =
     (if n = None then Some None
      else do {
        l \<leftarrow> rd h n left;
        if l \<noteq> None then maxNode h l
        else do { p \<leftarrow> rd h n parent; prevNode_loop h n p } })"

definition transplant :: "('k, 'v) heap \<Rightarrow> 'k mapobj \<Rightarrow> ptr \<Rightarrow> ptr \<Rightarrow> (('k, 'v) heap \<times> 'k mapobj) option" where
  "transplant h m u v = do {
     p \<leftarrow> rd h u parent;
     (h, m) \<leftarrow> relink h m p u v;
     h \<leftarrow> (if v \<noteq> None then wr h v (\<lambda>n. n\<lparr>parent := p\<rparr>) else Some h);
     Some (h, m) }"

definition eraseNode :: "('k, 'v) heap \<Rightarrow> 'k mapobj \<Rightarrow> ptr \<Rightarrow> (('k, 'v) heap \<times> 'k mapobj) option" where
  "eraseNode h m z =
     (if z = None then Some (h, m)
      else do {
        zl \<leftarrow> rd h z left;
        zr \<leftarrow> rd h z right;
        if zl = None \<or> zr = None then do {
          child \<leftarrow> (if zl \<noteq> None then rd h z left else rd h z right);
          par \<leftarrow> rd h z parent;
          (h, m) \<leftarrow> transplant h m z child;
          h \<leftarrow> delete_Node h z;
          rebalanceUp h (m\<lparr>nodeCount := nodeCount m - 1\<rparr>) par }
        else do {
          s \<leftarrow> minNode h zr;
          sp \<leftarrow> rd h s parent;
          (h, m, rebalanceStart) \<leftarrow>
            (if sp \<noteq> z then do {
               sr \<leftarrow> rd h s right;
               (h, m) \<leftarrow> transplant h m s sr;
               zr \<leftarrow> rd h z right;
               h \<leftarrow> wr h s (\<lambda>n. n\<lparr>right := zr\<rparr>);
               sr \<leftarrow> rd h s right;
               h \<leftarrow> (if sr \<noteq> None then wr h sr (\<lambda>n. n\<lparr>parent := s\<rparr>) else Some h);
               Some (h, m, sp) }
             else Some (h, m, s));
          par \<leftarrow> rd h z parent;
          (h, m) \<leftarrow> transplant h m z s;
          zl \<leftarrow> rd h z left;
          h \<leftarrow> wr h s (\<lambda>n. n\<lparr>left := zl\<rparr>);
          sl \<leftarrow> rd h s left;
          h \<leftarrow> (if sl \<noteq> None then wr h sl (\<lambda>n. n\<lparr>parent := s\<rparr>) else Some h);
          h \<leftarrow> delete_Node h z;
          (h, m) \<leftarrow> rebalanceUp h (m\<lparr>nodeCount := nodeCount m - 1\<rparr>) rebalanceStart;
          rebalanceUp h m par } })"

section \<open>The iterators\<close>

text \<open>An iterator reaches its map through the pointer \<open>owner\<close>, so its operations read
  a world: the heap and the map objects, by address.\<close>

record ('k, 'v) world =
  hp :: "('k, 'v) heap"
  objs :: "addr \<rightharpoonup> 'k mapobj"

text \<open>\<^verbatim>\<open>operator++()\<close>; the result is the iterator after the step.\<close>

definition iter_inc :: "('k, 'v) world \<Rightarrow> iterator \<Rightarrow> iterator result option" where
  "iter_inc w it =
     (if owner it = None then Some (Throws invalid_iterator)
      else if nodePtr it = None then Some (Throws invalid_iterator)
      else do {
        ow \<leftarrow> owner it;
        m \<leftarrow> objs w ow;
        n \<leftarrow> nextNode (hp w) (nodePtr it);
        Some (Returns (it\<lparr>nodePtr := n\<rparr>)) })"

text \<open>\<^verbatim>\<open>operator--()\<close>.\<close>

definition iter_dec :: "('k, 'v) world \<Rightarrow> iterator \<Rightarrow> iterator result option" where
  "iter_dec w it =
     (if owner it = None then Some (Throws invalid_iterator)
      else if nodePtr it = None then do {
        ow \<leftarrow> owner it;
        m \<leftarrow> objs w ow;
        n \<leftarrow> maxNode (hp w) (root m);
        if n = None then Some (Throws invalid_iterator)
        else Some (Returns (it\<lparr>nodePtr := n\<rparr>)) }
      else do {
        ow \<leftarrow> owner it;
        m \<leftarrow> objs w ow;
        prev \<leftarrow> prevNode (hp w) (nodePtr it);
        if prev = None then Some (Throws invalid_iterator)
        else Some (Returns (it\<lparr>nodePtr := prev\<rparr>)) })"

text \<open>\<^verbatim>\<open>operator++(int)\<close> and \<^verbatim>\<open>operator--(int)\<close>: the iterator after the step and the copy
  that is returned.\<close>

definition iter_post_inc :: "('k, 'v) world \<Rightarrow> iterator \<Rightarrow> (iterator \<times> iterator) result option" where
  "iter_post_inc w it = do {
     r \<leftarrow> iter_inc w it;
     case r of Throws e \<Rightarrow> Some (Throws e) | Returns it' \<Rightarrow> Some (Returns (it', it)) }"

definition iter_post_dec :: "('k, 'v) world \<Rightarrow> iterator \<Rightarrow> (iterator \<times> iterator) result option" where
  "iter_post_dec w it = do {
     r \<leftarrow> iter_dec w it;
     case r of Throws e \<Rightarrow> Some (Throws e) | Returns it' \<Rightarrow> Some (Returns (it', it)) }"

text \<open>\<^verbatim>\<open>operator*()\<close>: the entry the iterator stands at.\<close>

definition iter_deref :: "('k, 'v) heap \<Rightarrow> iterator \<Rightarrow> ('k \<times> 'v) result option" where
  "iter_deref h it =
     (if nodePtr it = None then Some (Throws invalid_iterator)
      else do { v \<leftarrow> rd h (nodePtr it) val; Some (Returns v) })"

text \<open>\<^verbatim>\<open>operator->()\<close> is declared \<^verbatim>\<open>noexcept\<close> and calls \<^verbatim>\<open>operator*()\<close>. An exception cannot
  leave a \<^verbatim>\<open>noexcept\<close> function: where \<^verbatim>\<open>operator*()\<close> throws, the program ends in
  \<^verbatim>\<open>std::terminate\<close>.\<close>

datatype 'a noexcept_result = Finishes 'a | Terminates

definition iter_arrow :: "('k, 'v) heap \<Rightarrow> iterator \<Rightarrow> ('k \<times> 'v) noexcept_result option" where
  "iter_arrow h it = do {
     r \<leftarrow> iter_deref h it;
     case r of Returns v \<Rightarrow> Some (Finishes v) | Throws e \<Rightarrow> Some Terminates }"

definition iter_eq :: "iterator \<Rightarrow> iterator \<Rightarrow> bool" where
  "iter_eq a b = (owner a = owner b \<and> nodePtr a = nodePtr b)"

section \<open>The public members of the map\<close>

text \<open>A member function takes the heap, the members \<open>m\<close> of the object it is called on
  and, where the code uses it, the object's address \<open>this\<close>. \<open>c\<close> is the value of
  \<^verbatim>\<open>Compare()\<close>, \<open>dflt\<close> the value of \<^verbatim>\<open>T()\<close>.\<close>

definition map_ctor :: "('k \<Rightarrow> 'k \<Rightarrow> bool) \<Rightarrow> 'k mapobj" where
  "map_ctor c = \<lparr>root = None, nodeCount = 0, cmp = c\<rparr>"

definition map_copy :: "('k, 'v) heap \<Rightarrow> 'k mapobj \<Rightarrow> (('k, 'v) heap \<times> 'k mapobj result) option" where
  "map_copy h other = do {
     (h, r) \<leftarrow> cloneSubtree h (root other) None;
     case r of
       Throws e \<Rightarrow> Some (h, Throws e)
     | Returns p \<Rightarrow> Some (h, Returns \<lparr>root = p, nodeCount = nodeCount other, cmp = cmp other\<rparr>) }"

definition map_clear :: "('k, 'v) heap \<Rightarrow> 'k mapobj \<Rightarrow> (('k, 'v) heap \<times> 'k mapobj) option" where
  "map_clear h m = do {
     h \<leftarrow> destroySubtree h (root m);
     Some (h, m\<lparr>root := None, nodeCount := 0\<rparr>) }"

text \<open>\<^verbatim>\<open>operator=\<close>: \<open>this\<close> and \<open>that\<close> are the addresses of the two objects, \<open>m\<close> and
  \<open>other\<close> their members.\<close>

definition map_assign ::
  "('k, 'v) heap \<Rightarrow> addr \<Rightarrow> 'k mapobj \<Rightarrow> addr \<Rightarrow> 'k mapobj \<Rightarrow> (('k, 'v) heap \<times> 'k mapobj \<times> unit result) option" where
  "map_assign h this m that other =
     (if this = that then Some (h, m, Returns ())
      else do {
        (h, m) \<leftarrow> map_clear h m;
        (h, r) \<leftarrow> cloneSubtree h (root other) None;
        case r of
          Throws e \<Rightarrow> Some (h, m\<lparr>cmp := cmp other\<rparr>, Throws e)
        | Returns p \<Rightarrow> Some (h, m\<lparr>cmp := cmp other, root := p, nodeCount := nodeCount other\<rparr>, Returns ()) })"

definition map_dtor :: "('k, 'v) heap \<Rightarrow> 'k mapobj \<Rightarrow> ('k, 'v) heap option" where
  "map_dtor h m = do { (h, m) \<leftarrow> map_clear h m; Some h }"

definition map_at :: "('k, 'v) heap \<Rightarrow> 'k mapobj \<Rightarrow> 'k \<Rightarrow> 'v result option" where
  "map_at h m key = do {
     n \<leftarrow> findNode h m key;
     if n = None then Some (Throws index_out_of_bound)
     else do { v \<leftarrow> rd h n (\<lambda>x. snd (val x)); Some (Returns v) } }"

text \<open>The assignment through the reference that \<^verbatim>\<open>at\<close>, \<^verbatim>\<open>operator[]\<close> and the
  dereferenced iterator return: \<^verbatim>\<open>n->value.second = v\<close>.\<close>

definition assign_second :: "('k, 'v) heap \<Rightarrow> ptr \<Rightarrow> 'v \<Rightarrow> ('k, 'v) heap option" where
  "assign_second h n v = wr h n (\<lambda>x. x\<lparr>val := (fst (val x), v)\<rparr>)"

partial_function (option) insert_loop ::
  "('k, 'v) heap \<Rightarrow> 'k mapobj \<Rightarrow> 'k \<Rightarrow> ptr \<Rightarrow> ptr \<Rightarrow> bool \<Rightarrow> (ptr + ptr \<times> bool) option" where
  "insert_loop h m key cur par isLeft =
     (if cur = None then Some (Inr (par, isLeft))
      else do {
        k \<leftarrow> rd h cur (\<lambda>n. fst (val n));
        if keyEq m key k then Some (Inl cur)
        else if cmp m key k then do { l \<leftarrow> rd h cur left; insert_loop h m key l cur True }
        else do { r \<leftarrow> rd h cur right; insert_loop h m key r cur False } })"

declare insert_loop.simps [code]

definition map_insert ::
  "('k, 'v) heap \<Rightarrow> 'k mapobj \<Rightarrow> addr \<Rightarrow> 'k \<times> 'v \<Rightarrow> (('k, 'v) heap \<times> 'k mapobj \<times> (iterator \<times> bool) result) option" where
  "map_insert h m this v = do {
     d \<leftarrow> insert_loop h m (fst v) (root m) None False;
     case d of
       Inl cur \<Rightarrow> Some (h, m, Returns (\<lparr>nodePtr = cur, owner = Some this\<rparr>, False))
     | Inr (par, isLeft) \<Rightarrow>
         (case new_Node h v par of
            (h, Throws e) \<Rightarrow> Some (h, m, Throws e)
          | (h, Returns node) \<Rightarrow> do {
              (h, m) \<leftarrow> (if par = None then Some (h, m\<lparr>root := node\<rparr>)
                          else if isLeft then do { h \<leftarrow> wr h par (\<lambda>n. n\<lparr>left := node\<rparr>); Some (h, m) }
                          else do { h \<leftarrow> wr h par (\<lambda>n. n\<lparr>right := node\<rparr>); Some (h, m) });
              (h, m) \<leftarrow> rebalanceUp h (m\<lparr>nodeCount := nodeCount m + 1\<rparr>) par;
              Some (h, m, Returns (\<lparr>nodePtr = node, owner = Some this\<rparr>, True)) }) }"

text \<open>\<^verbatim>\<open>operator[]\<close>, the form that inserts, and the const form.\<close>

definition map_index ::
  "('k, 'v) heap \<Rightarrow> 'k mapobj \<Rightarrow> addr \<Rightarrow> 'v \<Rightarrow> 'k \<Rightarrow> (('k, 'v) heap \<times> 'k mapobj \<times> 'v result) option" where
  "map_index h m this dflt key = do {
     n \<leftarrow> findNode h m key;
     if n \<noteq> None then do { v \<leftarrow> rd h n (\<lambda>x. snd (val x)); Some (h, m, Returns v) }
     else do {
       (h, m, res) \<leftarrow> map_insert h m this (key, dflt);
       case res of
         Throws e \<Rightarrow> Some (h, m, Throws e)
       | Returns (it, b) \<Rightarrow> do {
           e \<leftarrow> iter_deref h it;
           case e of Throws x \<Rightarrow> Some (h, m, Throws x) | Returns kv \<Rightarrow> Some (h, m, Returns (snd kv)) } } }"

definition map_index_const :: "('k, 'v) heap \<Rightarrow> 'k mapobj \<Rightarrow> 'k \<Rightarrow> 'v result option" where
  "map_index_const h m key = do {
     n \<leftarrow> findNode h m key;
     if n = None then Some (Throws index_out_of_bound)
     else do { v \<leftarrow> rd h n (\<lambda>x. snd (val x)); Some (Returns v) } }"

definition map_begin :: "('k, 'v) heap \<Rightarrow> 'k mapobj \<Rightarrow> addr \<Rightarrow> iterator option" where
  "map_begin h m this = do { p \<leftarrow> minNode h (root m); Some \<lparr>nodePtr = p, owner = Some this\<rparr> }"

definition map_end :: "addr \<Rightarrow> iterator" where
  "map_end this = \<lparr>nodePtr = None, owner = Some this\<rparr>"

definition map_empty :: "'k mapobj \<Rightarrow> bool" where
  "map_empty m = (nodeCount m = 0)"

definition map_size :: "'k mapobj \<Rightarrow> 64 word" where
  "map_size m = nodeCount m"

definition map_erase ::
  "('k, 'v) heap \<Rightarrow> 'k mapobj \<Rightarrow> addr \<Rightarrow> iterator \<Rightarrow> (('k, 'v) heap \<times> 'k mapobj \<times> unit result) option" where
  "map_erase h m this pos =
     (if owner pos \<noteq> Some this then Some (h, m, Throws invalid_iterator)
      else if nodePtr pos = None then Some (h, m, Throws invalid_iterator)
      else do { (h, m) \<leftarrow> eraseNode h m (nodePtr pos); Some (h, m, Returns ()) })"

definition map_count :: "('k, 'v) heap \<Rightarrow> 'k mapobj \<Rightarrow> 'k \<Rightarrow> 64 word option" where
  "map_count h m key = do { n \<leftarrow> findNode h m key; Some (if n \<noteq> None then 1 else 0) }"

definition map_find :: "('k, 'v) heap \<Rightarrow> 'k mapobj \<Rightarrow> addr \<Rightarrow> 'k \<Rightarrow> iterator option" where
  "map_find h m this key = do { n \<leftarrow> findNode h m key; Some \<lparr>nodePtr = n, owner = Some this\<rparr> }"

section \<open>A traversal\<close>

text \<open>The loop a client writes to visit the entries in order:
  \<^verbatim>\<open>for (; it != e; ++it) out.push_back(*it);\<close>\<close>

partial_function (option) traverse :: "('k, 'v) world \<Rightarrow> iterator \<Rightarrow> iterator \<Rightarrow> ('k \<times> 'v) list result option" where
  "traverse w it e =
     (if iter_eq it e then Some (Returns [])
      else do {
        r \<leftarrow> iter_deref (hp w) it;
        case r of
          Throws x \<Rightarrow> Some (Throws x)
        | Returns kv \<Rightarrow> do {
            r2 \<leftarrow> iter_inc w it;
            case r2 of
              Throws x \<Rightarrow> Some (Throws x)
            | Returns it' \<Rightarrow> do {
                rest \<leftarrow> traverse w it' e;
                case rest of
                  Throws x \<Rightarrow> Some (Throws x)
                | Returns kvs \<Rightarrow> Some (Returns (kv # kvs)) } } })"

declare traverse.simps [code]

datatype ('k, 'v) tree = Lf | Nd "('k, 'v) tree" addr "'k \<times> 'v" int "('k, 'v) tree"

fun rootp :: "('k, 'v) tree \<Rightarrow> ptr" where
  "rootp Lf = None"
| "rootp (Nd l a kv c r) = Some a"

fun addrs :: "('k, 'v) tree \<Rightarrow> addr set" where
  "addrs Lf = {}"
| "addrs (Nd l a kv c r) = insert a (addrs l \<union> addrs r)"

fun hto :: "('k, 'v) tree \<Rightarrow> int" where
  "hto Lf = 0"
| "hto (Nd l a kv c r) = c"

fun inorder :: "('k, 'v) tree \<Rightarrow> (addr \<times> 'k \<times> 'v) list" where
  "inorder Lf = []"
| "inorder (Nd l a kv c r) = inorder l @ (a, kv) # inorder r"

fun repr :: "(addr \<rightharpoonup> ('k, 'v) Node) \<Rightarrow> ptr \<Rightarrow> ('k, 'v) tree \<Rightarrow> bool" where
  "repr cs par Lf = True"
| "repr cs par (Nd l a kv c r) =
     (cs a = Some \<lparr>val = kv, left = rootp l, right = rootp r, parent = par, height = c\<rparr> \<and>
      repr cs (Some a) l \<and> repr cs (Some a) r \<and>
      a \<notin> addrs l \<and> a \<notin> addrs r \<and> addrs l \<inter> addrs r = {})"

datatype ('k, 'v) frame = Fr bool addr "'k \<times> 'v" int "('k, 'v) tree"

fun plug1 :: "('k, 'v) tree \<Rightarrow> ('k, 'v) frame \<Rightarrow> ('k, 'v) tree" where
  "plug1 t (Fr isL a kv c s) = (if isL then Nd t a kv c s else Nd s a kv c t)"

fun plug :: "('k, 'v) tree \<Rightarrow> ('k, 'v) frame list \<Rightarrow> ('k, 'v) tree" where
  "plug t [] = t"
| "plug t (f # fs) = plug (plug1 t f) fs"

fun cpar :: "('k, 'v) frame list \<Rightarrow> ptr" where
  "cpar [] = None"
| "cpar (Fr isL a kv c s # fs) = Some a"

fun croot :: "ptr \<Rightarrow> ('k, 'v) frame list \<Rightarrow> ptr" where
  "croot p [] = p"
| "croot p (Fr isL a kv c s # fs) = croot (Some a) fs"

fun caddrs :: "('k, 'v) frame list \<Rightarrow> addr set" where
  "caddrs [] = {}"
| "caddrs (Fr isL a kv c s # fs) = insert a (addrs s \<union> caddrs fs)"

fun reprc :: "(addr \<rightharpoonup> ('k, 'v) Node) \<Rightarrow> ptr \<Rightarrow> ('k, 'v) frame list \<Rightarrow> bool" where
  "reprc cs p [] = True"
| "reprc cs p (Fr isL a kv c s # fs) =
     (cs a = Some \<lparr>val = kv, left = (if isL then p else rootp s), right = (if isL then rootp s else p),
                  parent = cpar fs, height = c\<rparr> \<and>
      repr cs (Some a) s \<and> a \<notin> addrs s \<and> reprc cs (Some a) fs \<and>
      a \<notin> caddrs fs \<and> addrs s \<inter> caddrs fs = {})"

definition zrepr :: "(addr \<rightharpoonup> ('k, 'v) Node) \<Rightarrow> ptr \<Rightarrow> ('k, 'v) tree \<Rightarrow> ('k, 'v) frame list \<Rightarrow> bool" where
  "zrepr cs rt t fs = (repr cs (cpar fs) t \<and> reprc cs (rootp t) fs \<and> addrs t \<inter> caddrs fs = {} \<and> rt = croot (rootp t) fs)"


text \<open>A cached height that is not negative and at most \<open>2 ^ 30\<close>: sums of a few of them
  are far from the ends of \<^verbatim>\<open>int\<close>.\<close>

definition small :: "('k, 'v) tree \<Rightarrow> bool" where
  "small t = (0 \<le> hto t \<and> hto t \<le> 1073741824)"

definition node_t :: "('k, 'v) tree \<Rightarrow> addr \<Rightarrow> 'k \<times> 'v \<Rightarrow> ('k, 'v) tree \<Rightarrow> ('k, 'v) tree" where
  "node_t l a kv r = Nd l a kv (max (hto l) (hto r) + 1) r"

fun reparent :: "(addr \<rightharpoonup> ('k, 'v) Node) \<Rightarrow> ('k, 'v) tree \<Rightarrow> ptr \<Rightarrow> (addr \<rightharpoonup> ('k, 'v) Node)" where
  "reparent cs Lf q = cs"
| "reparent cs (Nd l a kv c r) q = cs(a \<mapsto> \<lparr>val = kv, left = rootp l, right = rootp r, parent = q, height = c\<rparr>)"

fun chole :: "(addr \<rightharpoonup> ('k, 'v) Node) \<Rightarrow> ('k, 'v) frame list \<Rightarrow> ptr \<Rightarrow> (addr \<rightharpoonup> ('k, 'v) Node)" where
  "chole cs [] v = cs"
| "chole cs (Fr isL a kv c s # fs) v =
     cs(a \<mapsto> \<lparr>val = kv, left = (if isL then v else rootp s), right = (if isL then rootp s else v),
                parent = cpar fs, height = c\<rparr>)"

definition steady :: "addr set \<Rightarrow> ('k, 'v) heap \<Rightarrow> 'k mapobj \<Rightarrow> ('k, 'v) heap \<Rightarrow> 'k mapobj \<Rightarrow> bool" where
  "steady S h m h' m' =
     (nxt h' = nxt h \<and> avail h' = avail h \<and> dom (cells h') = dom (cells h) \<and>
      (\<forall>a. a \<notin> S \<longrightarrow> cells h' a = cells h a) \<and> nodeCount m' = nodeCount m \<and> cmp m' = cmp m)"

definition hrepr :: "(addr \<rightharpoonup> ('k, 'v) Node) \<Rightarrow> ('k, 'v) tree \<Rightarrow> bool" where
  "hrepr cs t = (\<exists>par. repr cs par t)"

fun bal_t :: "('k, 'v) tree \<Rightarrow> int" where
  "bal_t Lf = 0"
| "bal_t (Nd l a kv c r) = hto r - hto l"

fun rotL_t :: "('k, 'v) tree \<Rightarrow> ('k, 'v) tree" where
  "rotL_t (Nd A x kx cx (Nd B y ky cy C)) = node_t (node_t A x kx B) y ky C"
| "rotL_t t = t"

fun rotR_t :: "('k, 'v) tree \<Rightarrow> ('k, 'v) tree" where
  "rotR_t (Nd (Nd A x kx cx B) y ky cy C) = node_t A x kx (node_t B y ky C)"
| "rotR_t t = t"

fun rebal_t :: "('k, 'v) tree \<Rightarrow> ('k, 'v) tree" where
  "rebal_t Lf = Lf"
| "rebal_t (Nd l a kv c r) =
     (if hto r - hto l > 1 then rotL_t (node_t l a kv (if bal_t r < 0 then rotR_t r else r))
      else if hto r - hto l < - 1 then rotR_t (node_t (if bal_t l > 0 then rotL_t l else l) a kv r)
      else node_t l a kv r)"

fun havl :: "('k, 'v) tree \<Rightarrow> bool" where
  "havl Lf = True"
| "havl (Nd l a kv c r) = (havl l \<and> havl r \<and> \<bar>hto l - hto r\<bar> \<le> 1 \<and> c = max (hto l) (hto r) + 1)"

fun near_root :: "addr \<Rightarrow> ('k, 'v) tree \<Rightarrow> bool" where
  "near_root p Lf = False"
| "near_root p (Nd l a kv c r) = (p = a \<or> rootp l = Some p \<or> rootp r = Some p)"

fun cavl :: "int \<Rightarrow> ('k, 'v) frame list \<Rightarrow> bool" where
  "cavl hold [] = True"
| "cavl hold (Fr isL a kv c s # fs) = (havl s \<and> \<bar>hto s - hold\<bar> \<le> 1 \<and> cavl (max hold (hto s) + 1) fs)"

fun dirflag :: "('k, 'v) frame list \<Rightarrow> bool" where
  "dirflag [] = False"
| "dirflag (Fr isL a kv c s # fs) = isL"

fun descend :: "('k \<Rightarrow> 'k \<Rightarrow> bool) \<Rightarrow> 'k \<Rightarrow> ('k, 'v) tree \<Rightarrow> ('k, 'v) frame list \<Rightarrow> ('k, 'v) tree \<times> ('k, 'v) frame list" where
  "descend c k Lf fs = (Lf, fs)"
| "descend c k (Nd l a kv ch r) fs =
     (if \<not> c k (fst kv) \<and> \<not> c (fst kv) k then (Nd l a kv ch r, fs)
      else if c k (fst kv) then descend c k l (Fr True a kv ch r # fs)
      else descend c k r (Fr False a kv ch l # fs))"

fun before :: "('k, 'v) frame list \<Rightarrow> (addr \<times> 'k \<times> 'v) list" where
  "before [] = []"
| "before (Fr isL a kv c s # fs) = (if isL then before fs else before fs @ inorder s @ [(a, kv)])"

fun after :: "('k, 'v) frame list \<Rightarrow> (addr \<times> 'k \<times> 'v) list" where
  "after [] = []"
| "after (Fr isL a kv c s # fs) = (if isL then (a, kv) # inorder s @ after fs else after fs)"

definition heap_ok :: "('k, 'v) heap \<Rightarrow> bool" where
  "heap_ok h = (\<forall>a. a \<in> dom (cells h) \<longrightarrow> a < nxt h)"

text \<open>The nodes that exist and the nodes the allocator can still give, together: addresses
  have 64 bits, so there are never more than \<open>2 ^ 64\<close> of them.\<close>

definition room :: "('k, 'v) heap \<Rightarrow> nat" where
  "room h = card (dom (cells h)) + avail h"

definition fits :: "('k, 'v) heap \<Rightarrow> bool" where
  "fits h = (room h \<le> 2 ^ 64)"

definition swo :: "('k \<Rightarrow> 'k \<Rightarrow> bool) \<Rightarrow> bool" where
  "swo c = ((\<forall>a. \<not> c a a) \<and> (\<forall>a b d. c a b \<longrightarrow> c b d \<longrightarrow> c a d) \<and> (\<forall>a b d. c a b \<longrightarrow> c a d \<or> c d b))"

definition equiv_key :: "('k \<Rightarrow> 'k \<Rightarrow> bool) \<Rightarrow> 'k \<Rightarrow> 'k \<Rightarrow> bool" where
  "equiv_key c a b = (\<not> c a b \<and> \<not> c b a)"

definition entries :: "('k, 'v) tree \<Rightarrow> ('k \<times> 'v) list" where
  "entries t = map snd (inorder t)"

definition keys :: "('k, 'v) tree \<Rightarrow> 'k list" where
  "keys t = map fst (entries t)"

definition bst :: "('k \<Rightarrow> 'k \<Rightarrow> bool) \<Rightarrow> ('k, 'v) tree \<Rightarrow> bool" where
  "bst c t = sorted_wrt c (keys t)"

fun lmost :: "('k, 'v) tree \<Rightarrow> ptr" where
  "lmost Lf = None"
| "lmost (Nd l a kv c r) = (if l = Lf then Some a else lmost l)"

fun rmost :: "('k, 'v) tree \<Rightarrow> ptr" where
  "rmost Lf = None"
| "rmost (Nd l a kv c r) = (if r = Lf then Some a else rmost r)"

fun upR :: "('k, 'v) frame list \<Rightarrow> ptr" where
  "upR [] = None"
| "upR (Fr isL a kv c s # fs) = (if isL then Some a else upR fs)"

fun upL :: "('k, 'v) frame list \<Rightarrow> ptr" where
  "upL [] = None"
| "upL (Fr isL a kv c s # fs) = (if isL then upL fs else Some a)"

fun lfocus :: "('k, 'v) tree \<Rightarrow> ('k, 'v) frame list \<Rightarrow> ('k, 'v) tree \<times> ('k, 'v) frame list" where
  "lfocus Lf fs = (Lf, fs)"
| "lfocus (Nd l a kv c r) fs = (if l = Lf then (Nd l a kv c r, fs) else lfocus l (Fr True a kv c r # fs))"

fun hup :: "int \<Rightarrow> ('k, 'v) frame list \<Rightarrow> int" where
  "hup hold [] = hold"
| "hup hold (Fr isL a kv c s # fs) = hup (max hold (hto s) + 1) fs"

fun isLeftFrame :: "('k, 'v) frame \<Rightarrow> bool" where
  "isLeftFrame (Fr isL a kv c s) = isL"

fun tsize :: "('k, 'v) tree \<Rightarrow> nat" where
  "tsize Lf = 0"
| "tsize (Nd l a kv c r) = Suc (tsize l + tsize r)"

fun clone_t :: "addr \<Rightarrow> ('k, 'v) tree \<Rightarrow> ('k, 'v) tree" where
  "clone_t n Lf = Lf"
| "clone_t n (Nd l a kv c r) = node_t (clone_t (n + 1) l) n kv (clone_t (n + 1 + tsize l) r)"

definition start :: "('k, 'v) tree \<Rightarrow> ('k, 'v) frame list \<Rightarrow> ptr" where
  "start t fs = (case lmost t of Some x \<Rightarrow> Some x | None \<Rightarrow> upR fs)"

text \<open>The members \<open>m\<close> of a map describe the tree \<open>T\<close> in the cells \<open>cs\<close>: the nodes from
  \<open>root\<close> are those of \<open>T\<close>, with the cached heights of an AVL tree, the keys in the order of
  \<open>cmp\<close>, and \<open>nodeCount\<close> the number of nodes.\<close>

definition wf_map :: "(addr \<rightharpoonup> ('k, 'v) Node) \<Rightarrow> 'k mapobj \<Rightarrow> ('k, 'v) tree \<Rightarrow> bool" where
  "wf_map cs m T = (root m = rootp T \<and> repr cs None T \<and> havl T \<and> bst (cmp m) T \<and> swo (cmp m) \<and>
                    nodeCount m = of_nat (tsize T))"

text \<open>What a member function called on the map with tree \<open>T\<close> may touch: the nodes of \<open>T\<close>
  and nodes allocated during the call; a node it allocates is one the allocator had to
  give, and a node it releases can be given again.\<close>

definition step_ok :: "('k, 'v) heap \<Rightarrow> ('k, 'v) tree \<Rightarrow> ('k, 'v) heap \<Rightarrow> ('k, 'v) tree \<Rightarrow> bool" where
  "step_ok h T h' T' = (heap_ok h' \<and> nxt h \<le> nxt h' \<and> addrs T' \<subseteq> addrs T \<union> {a. nxt h \<le> a} \<and>
                        (\<forall>a. a \<notin> addrs T \<and> a < nxt h \<longrightarrow> cells h' a = cells h a) \<and>
                        room h' = room h)"

text \<open>The height of a tree, computed from its shape, and the AVL condition stated with
  it: at every node the two subtrees differ in height by at most one, and the cached height
  \<open>c\<close> is one more than the greater of them.\<close>

fun hgt :: "('k, 'v) tree \<Rightarrow> int" where
  "hgt Lf = 0"
| "hgt (Nd l a kv c r) = 1 + max (hgt l) (hgt r)"

fun avl :: "('k, 'v) tree \<Rightarrow> bool" where
  "avl Lf = True"
| "avl (Nd l a kv c r) = (avl l \<and> avl r \<and> \<bar>hgt l - hgt r\<bar> \<le> 1 \<and> c = 1 + max (hgt l) (hgt r))"

section \<open>The states a program can reach\<close>

text \<open>A world is well formed when no cell lies at or beyond the allocation pointer, the nodes
  fit the address space, every map object describes a tree of its own, and the trees of
  different objects share no node.\<close>

definition wf_world :: "('k, 'v) world \<Rightarrow> bool" where
  "wf_world w =
     (heap_ok (hp w) \<and> fits (hp w) \<and>
      (\<exists>ts. (\<forall>i m. objs w i = Some m \<longrightarrow> wf_map (cells (hp w)) m (ts i)) \<and>
            (\<forall>i j. i \<in> dom (objs w) \<longrightarrow> j \<in> dom (objs w) \<longrightarrow> i \<noteq> j \<longrightarrow>
                   addrs (ts i) \<inter> addrs (ts j) = {})))"

text \<open>The worlds a client reaches from the empty heap by calls of the public members that
  return. A comparator is a strict weak order, as \<^verbatim>\<open>Compare\<close> is required to be. The
  allocation budget may change between calls, within the address space. \<open>erase\<close> is called
  with a cursor that \<open>find\<close> returns (every live node is found by its own key; foreign and end cursors leave the world
  as it is); a value is written through the reference of a cursor that \<open>find\<close> returns.\<close>

inductive reach :: "('k, 'v) world \<Rightarrow> bool" where
  initial: "n \<le> 2 ^ 64 \<Longrightarrow> reach \<lparr>hp = \<lparr>cells = Map.empty, nxt = 0, avail = n\<rparr>, objs = Map.empty\<rparr>"
| set_budget: "reach w \<Longrightarrow> fits ((hp w)\<lparr>avail := n\<rparr>) \<Longrightarrow> reach (w\<lparr>hp := (hp w)\<lparr>avail := n\<rparr>\<rparr>)"
| construct: "reach w \<Longrightarrow> objs w i = None \<Longrightarrow> swo c \<Longrightarrow> reach (w\<lparr>objs := (objs w)(i \<mapsto> map_ctor c)\<rparr>)"
| copy_construct:
    "reach w \<Longrightarrow> objs w j = Some mo \<Longrightarrow> objs w i = None \<Longrightarrow>
     map_copy (hp w) mo = Some (h', Returns m') \<Longrightarrow>
     reach \<lparr>hp = h', objs = (objs w)(i \<mapsto> m')\<rparr>"
| copy_construct_throws:
    "reach w \<Longrightarrow> objs w j = Some mo \<Longrightarrow> map_copy (hp w) mo = Some (h', Throws e) \<Longrightarrow>
     reach \<lparr>hp = h', objs = objs w\<rparr>"
| destroy:
    "reach w \<Longrightarrow> objs w i = Some m \<Longrightarrow> map_dtor (hp w) m = Some h' \<Longrightarrow>
     reach \<lparr>hp = h', objs = (objs w)(i := None)\<rparr>"
| assignment:
    "reach w \<Longrightarrow> objs w i = Some m \<Longrightarrow> objs w j = Some mo \<Longrightarrow>
     map_assign (hp w) i m j mo = Some (h', m', r) \<Longrightarrow>
     reach \<lparr>hp = h', objs = (objs w)(i \<mapsto> m')\<rparr>"
| clearing:
    "reach w \<Longrightarrow> objs w i = Some m \<Longrightarrow> map_clear (hp w) m = Some (h', m') \<Longrightarrow>
     reach \<lparr>hp = h', objs = (objs w)(i \<mapsto> m')\<rparr>"
| insertion:
    "reach w \<Longrightarrow> objs w i = Some m \<Longrightarrow> map_insert (hp w) m i v = Some (h', m', ri) \<Longrightarrow>
     reach \<lparr>hp = h', objs = (objs w)(i \<mapsto> m')\<rparr>"
| indexing:
    "reach w \<Longrightarrow> objs w i = Some m \<Longrightarrow> map_index (hp w) m i dflt k = Some (h', m', rv) \<Longrightarrow>
     reach \<lparr>hp = h', objs = (objs w)(i \<mapsto> m')\<rparr>"
| erasure:
    "reach w \<Longrightarrow> objs w i = Some m \<Longrightarrow> map_find (hp w) m i k = Some pos \<Longrightarrow>
     map_erase (hp w) m i pos = Some (h', m', r) \<Longrightarrow>
     reach \<lparr>hp = h', objs = (objs w)(i \<mapsto> m')\<rparr>"
| store_value:
    "reach w \<Longrightarrow> objs w i = Some m \<Longrightarrow> map_find (hp w) m i k = Some pos \<Longrightarrow>
     nodePtr pos \<noteq> None \<Longrightarrow> assign_second (hp w) (nodePtr pos) x = Some h' \<Longrightarrow>
     reach \<lparr>hp = h', objs = objs w\<rparr>"

text \<open>The search-tree order stated node by node: every key of the left subtree is less than
  the node's key, every key of the right subtree is greater.\<close>

fun ordered :: "('k \<Rightarrow> 'k \<Rightarrow> bool) \<Rightarrow> ('k, 'v) tree \<Rightarrow> bool" where
  "ordered c Lf = True"
| "ordered c (Nd l a kv h r) =
     (ordered c l \<and> ordered c r \<and>
      (\<forall>x \<in> set (keys l). c x (fst kv)) \<and> (\<forall>x \<in> set (keys r). c (fst kv) x))"

section \<open>A small world\<close>

text \<open>The map at address 0 after \<open>insert\<close> of the keys 1, 2 and 3 (the third insertion rotates
  at the root), with the allocator able to give five more nodes; and the same heap with a
  second map at address 1 holding the key 7, the allocator able to give one node.\<close>

definition three_tree :: "(nat, nat) tree" where
  "three_tree = Nd (Nd Lf 0 (1, 10) 1 Lf) 1 (2, 20) 2 (Nd Lf 2 (3, 30) 1 Lf)"

definition three_cells :: "addr \<rightharpoonup> (nat, nat) Node" where
  "three_cells =
     [0 \<mapsto> \<lparr>val = (1, 10), left = None, right = None, parent = Some 1, height = 1\<rparr>,
      1 \<mapsto> \<lparr>val = (2, 20), left = Some 0, right = Some 2, parent = None, height = 2\<rparr>,
      2 \<mapsto> \<lparr>val = (3, 30), left = None, right = None, parent = Some 1, height = 1\<rparr>]"

definition three_heap :: "(nat, nat) heap" where
  "three_heap = \<lparr>cells = three_cells, nxt = 3, avail = 5\<rparr>"

definition three_map :: "nat mapobj" where
  "three_map = \<lparr>root = Some 1, nodeCount = 3, cmp = (<)\<rparr>"

definition three_world :: "(nat, nat) world" where
  "three_world = \<lparr>hp = three_heap, objs = [0 \<mapsto> three_map]\<rparr>"

definition one_tree :: "(nat, nat) tree" where
  "one_tree = Nd Lf 3 (7, 70) 1 Lf"

definition one_map :: "nat mapobj" where
  "one_map = \<lparr>root = Some 3, nodeCount = 1, cmp = (<)\<rparr>"

definition two_heap :: "(nat, nat) heap" where
  "two_heap =
     \<lparr>cells = three_cells(3 \<mapsto> \<lparr>val = (7, 70), left = None, right = None, parent = None, height = 1\<rparr>),
      nxt = 4, avail = 1\<rparr>"

text \<open>\<open>three_heap\<close> and \<open>three_map\<close> after \<open>erase\<close> at the node 2.\<close>

definition erased_heap :: "(nat, nat) heap" where
  "erased_heap =
     \<lparr>cells = [0 \<mapsto> \<lparr>val = (1, 10), left = None, right = None, parent = Some 1, height = 1\<rparr>,
               1 \<mapsto> \<lparr>val = (2, 20), left = Some 0, right = None, parent = None, height = 2\<rparr>],
      nxt = 3, avail = 6\<rparr>"

definition erased_map :: "nat mapobj" where
  "erased_map = \<lparr>root = Some 1, nodeCount = 2, cmp = (<)\<rparr>"

text \<open>\<open>two_heap\<close> after the assignment of the map at 0 to the map at 1 has failed: the node 3
  is released, the nodes 4 and 5 are what the clone had allocated.\<close>

definition failed_heap :: "(nat, nat) heap" where
  "failed_heap =
     \<lparr>cells = three_cells(4 \<mapsto> \<lparr>val = (2, 20), left = Some 5, right = None, parent = None, height = 1\<rparr>,
                         5 \<mapsto> \<lparr>val = (1, 10), left = None, right = None, parent = Some 4, height = 1\<rparr>),
      nxt = 6, avail = 0\<rparr>"

definition failed_map :: "nat mapobj" where
  "failed_map = \<lparr>root = None, nodeCount = 0, cmp = (<)\<rparr>"

lemma rootp_None [simp]: "(rootp t = None) = (t = Lf)" by (cases t) auto
lemma rootp_None' [simp]: "(None = rootp t) = (t = Lf)" by (cases t) auto
lemma rootp_Some: "rootp t = Some a \<Longrightarrow> a \<in> addrs t" by (cases t) auto

lemma repr_upd [simp]: "a \<notin> addrs t \<Longrightarrow> repr (cs(a := n)) par t = repr cs par t"
  by (induction t arbitrary: par) auto

lemma repr_cong: "(\<And>a. a \<in> addrs t \<Longrightarrow> cs' a = cs a) \<Longrightarrow> repr cs' par t = repr cs par t"
  by (induction t arbitrary: par) auto


lemma reprc_cong: "(\<And>a. a \<in> caddrs fs \<Longrightarrow> cs' a = cs a) \<Longrightarrow> reprc cs' p fs = reprc cs p fs"
proof (induction fs arbitrary: p)
  case Nil
  then show ?case by simp
next
  case (Cons f fs)
  obtain isL b kv c s where f: "f = Fr isL b kv c s" by (cases f)
  have "repr cs' (Some b) s = repr cs (Some b) s" using Cons(2) unfolding f by (intro repr_cong) simp
  moreover have "reprc cs' (Some b) fs = reprc cs (Some b) fs" using Cons unfolding f by simp
  moreover have "cs' b = cs b" using Cons(2) unfolding f by simp
  ultimately show ?case unfolding f by simp
qed

lemma reprc_upd [simp]: "a \<notin> caddrs fs \<Longrightarrow> reprc (cs(a := n)) p fs = reprc cs p fs"
  by (rule reprc_cong) auto

lemma addrs_plug1: "addrs (plug1 t f) = addrs t \<union> caddrs [f]"
  by (cases f) auto

lemma caddrs_Cons: "caddrs (f # fs) = caddrs [f] \<union> caddrs fs"
  by (cases f) auto

lemma addrs_plug: "addrs (plug t fs) = addrs t \<union> caddrs fs"
proof (induction t fs rule: plug.induct)
  case (1 t) show ?case by simp
next
  case (2 t f fs)
  show ?case using 2 by (simp add: addrs_plug1 caddrs_Cons[of f fs] Un_assoc)
qed

lemma rootp_plug: "rootp (plug t fs) = croot (rootp t) fs"
proof (induction t fs rule: plug.induct)
  case (1 t) show ?case by simp
next
  case (2 t f fs)
  show ?case using 2 by (cases f) simp
qed

lemma zrepr_plug: "zrepr cs rt t fs = (rt = rootp (plug t fs) \<and> repr cs None (plug t fs))"
proof (induction t fs arbitrary: rule: plug.induct)
  case (1 t)
  then show ?case by (auto simp: zrepr_def)
next
  case (2 t f fs)
  obtain isL a kv c s where f: "f = Fr isL a kv c s" by (cases f)
  have "zrepr cs rt t (f # fs) = zrepr cs rt (plug1 t f) fs"
    unfolding zrepr_def f by (cases fs rule: cpar.cases) (auto simp: Int_commute)
  then show ?case using 2 by simp
qed


lemma rd_simps [simp]: "rd h None f = None" "rd h (Some a) f = map_option f (cells h a)"
  by (auto simp: rd_def split: option.splits bind_splits)

lemma wr_simps [simp]: "wr h None f = None"
  "wr h (Some a) f = (case cells h a of None \<Rightarrow> None | Some n \<Rightarrow> Some (h\<lparr>cells := (cells h)(a \<mapsto> f n)\<rparr>))"
  by (auto simp: wr_def split: option.splits bind_splits)

lemma repr_hrepr [simp]: "repr cs par t \<Longrightarrow> hrepr cs t"
  by (auto simp: hrepr_def)

lemma hrepr_Lf [simp]: "hrepr cs Lf"
  by (auto simp: hrepr_def)

lemma hrepr_upd [simp]: "a \<notin> addrs t \<Longrightarrow> hrepr (cs(a := n)) t = hrepr cs t"
  by (auto simp: hrepr_def)

lemma heightOf_simps [simp]: "heightOf h None = Some 0" "heightOf h (Some a) = map_option height (cells h a)"
  by (auto simp: heightOf_def)

lemma heightOf_repr [simp]: "hrepr (cells h) t \<Longrightarrow> heightOf h (rootp t) = Some (hto t)"
  by (cases t) (auto simp: hrepr_def)

lemma wr_parent_repr [simp]:
  "hrepr (cells h) t \<Longrightarrow>
   (if t \<noteq> Lf then wr h (rootp t) (\<lambda>n. n\<lparr>parent := q\<rparr>) else Some h) = Some (h\<lparr>cells := reparent (cells h) t q\<rparr>)"
  by (cases t) (auto simp: hrepr_def)

lemma reparent_apply [simp]: "a \<notin> addrs t \<Longrightarrow> reparent cs t q a = cs a"
  by (cases t) auto

lemma repr_reparent_other [simp]: "addrs t \<inter> addrs u = {} \<Longrightarrow> repr (reparent cs t q) par u = repr cs par u"
  by (cases t) auto

lemma hrepr_reparent_other [simp]: "addrs t \<inter> addrs u = {} \<Longrightarrow> hrepr (reparent cs t q) u = hrepr cs u"
  by (auto simp: hrepr_def)

lemma reprc_reparent_other [simp]: "addrs t \<inter> caddrs fs = {} \<Longrightarrow> reprc (reparent cs t q) p fs = reprc cs p fs"
  by (cases t) auto

lemma repr_reparent_self [simp]: "hrepr cs t \<Longrightarrow> repr (reparent cs t q) q t"
  by (cases t) (auto simp: hrepr_def)

lemma hrepr_reparent_self [simp]: "hrepr cs t \<Longrightarrow> hrepr (reparent cs t q) t"
  using repr_reparent_self[of cs t q] by (auto simp: hrepr_def simp del: repr_reparent_self)

lemma dom_reparent [simp]: "hrepr cs t \<Longrightarrow> dom (reparent cs t q) = dom cs"
  by (cases t) (auto simp: hrepr_def)

lemma chole_apply [simp]: "a \<notin> caddrs fs \<Longrightarrow> chole cs fs v a = cs a"
  by (cases fs rule: cpar.cases) auto

lemma repr_chole_other [simp]: "addrs u \<inter> caddrs fs = {} \<Longrightarrow> repr (chole cs fs v) par u = repr cs par u"
  by (cases fs rule: cpar.cases) auto

lemma hrepr_chole_other [simp]: "addrs u \<inter> caddrs fs = {} \<Longrightarrow> hrepr (chole cs fs v) u = hrepr cs u"
  by (auto simp: hrepr_def)

lemma reprc_chole [simp]: "reprc cs u fs \<Longrightarrow> reprc (chole cs fs v) v fs"
  by (cases fs rule: cpar.cases) auto

lemma dom_chole [simp]: "reprc cs u fs \<Longrightarrow> dom (chole cs fs v) = dom cs"
  by (cases fs rule: cpar.cases) auto

lemma croot_Cons: "fs \<noteq> [] \<Longrightarrow> croot u fs = croot v fs"
  by (cases fs rule: cpar.cases) auto

lemma relink_reprc:
  "reprc (cells h) (Some u) fs \<Longrightarrow> u \<notin> caddrs fs \<Longrightarrow> root m = croot (Some u) fs \<Longrightarrow>
   relink h m (cpar fs) (Some u) v = Some (h\<lparr>cells := chole (cells h) fs v\<rparr>, m\<lparr>root := croot v fs\<rparr>)"
proof (cases fs rule: cpar.cases)
  case 1
  then show ?thesis by (simp add: relink_def)
next
  case (2 isL a kv c s fs')
  assume a: "reprc (cells h) (Some u) fs" "u \<notin> caddrs fs" "root m = croot (Some u) fs"
  have "rootp s \<noteq> Some u" using a(2) 2 by (auto dest: rootp_Some)
  then show ?thesis using a 2 by (auto simp: relink_def)
qed


lemma max_if: "(if (a::int) > b then a else b) = max a b" by auto

lemma rootp_neq [simp]: "a \<notin> addrs t \<Longrightarrow> rootp t \<noteq> Some a" "a \<notin> addrs t \<Longrightarrow> Some a \<noteq> rootp t"
  by (cases t; auto)+

lemma bind_weak_cong: "x = y \<Longrightarrow> Option.bind x f = Option.bind y f"
  by simp

lemma int32_id: "- 2147483648 \<le> x \<Longrightarrow> x < 2147483648 \<Longrightarrow> int32 x = x"
  by (simp add: int32_def)

lemma int32_word: "int32 x = sint (word_of_int x :: 32 word)"
  by (simp add: int32_def int_word_sint)

lemma hto_nonneg: "havl t \<Longrightarrow> 0 \<le> hto t"
  by (induction t) auto

lemma hto_pos: "havl t \<Longrightarrow> t \<noteq> Lf \<Longrightarrow> 0 < hto t"
  by (cases t) (auto dest: hto_nonneg)

lemma hto_0: "havl t \<Longrightarrow> (hto t = 0) = (t = Lf)"
  using hto_pos[of t] by (cases t) auto

lemma int32_node:
  "0 \<le> a \<Longrightarrow> a < 2147483647 \<Longrightarrow> 0 \<le> b \<Longrightarrow> b < 2147483647 \<Longrightarrow> int32 (max a b + 1) = max a b + 1"
  by (rule int32_id) linarith+

lemma int32_diff:
  "0 \<le> a \<Longrightarrow> a < 2147483648 \<Longrightarrow> 0 \<le> b \<Longrightarrow> b < 2147483648 \<Longrightarrow> int32 (a - b) = a - b"
  by (rule int32_id) linarith+

lemma small_sub:
  "havl (Nd l a kv c r) \<Longrightarrow> small (Nd l a kv c r) \<Longrightarrow>
   small l \<and> small r \<and> hto l < c \<and> hto r < c \<and> c \<le> 1073741824"
proof -
  assume h: "havl (Nd l a kv c r)" and s: "small (Nd l a kv c r)"
  have "0 \<le> hto l" "0 \<le> hto r" using h by (auto intro: hto_nonneg)
  then show ?thesis using h s by (auto simp: small_def)
qed

lemma small_node: "small l \<Longrightarrow> small r \<Longrightarrow> hto l < b \<Longrightarrow> hto r < b \<Longrightarrow> b \<le> 1073741824 \<Longrightarrow> small (node_t l a kv r)"
  by (auto simp: small_def node_t_def)

lemma rotateLeft_zrepr:
  assumes z: "zrepr (cells h) (root m) (Nd A x kx cx (Nd B y ky cy C)) fs"
    and sm: "small A" "small B" "small C"
  shows "\<exists>h' m'. rotateLeft h m (Some x) = Some (h', m', Some y) \<and>
           zrepr (cells h') (root m') (node_t (node_t A x kx B) y ky C) fs \<and>
           steady (addrs (Nd A x kx cx (Nd B y ky cy C)) \<union> caddrs fs) h m h' m'"
proof -
  have rl: "relink hh m (cpar fs) (Some x) v = Some (hh\<lparr>cells := chole (cells hh) fs v\<rparr>, m\<lparr>root := croot v fs\<rparr>)"
    if "reprc (cells hh) (Some x) fs" for hh v
    using that z by (intro relink_reprc) (auto simp: zrepr_def)
  from z have f:
    "cells h x = Some \<lparr>val = kx, left = rootp A, right = Some y, parent = cpar fs, height = cx\<rparr>"
    "cells h y = Some \<lparr>val = ky, left = rootp B, right = rootp C, parent = Some x, height = cy\<rparr>"
    "repr (cells h) (Some x) A" "repr (cells h) (Some y) B" "repr (cells h) (Some y) C"
    "reprc (cells h) (Some x) fs"
    "x \<noteq> y" "x \<notin> addrs A" "x \<notin> addrs B" "x \<notin> addrs C" "y \<notin> addrs A" "y \<notin> addrs B" "y \<notin> addrs C"
    "x \<notin> caddrs fs" "y \<notin> caddrs fs"
    "addrs A \<inter> addrs B = {}" "addrs A \<inter> addrs C = {}" "addrs B \<inter> addrs C = {}"
    "addrs A \<inter> caddrs fs = {}" "addrs B \<inter> caddrs fs = {}" "addrs C \<inter> caddrs fs = {}"
    "root m = croot (Some x) fs"
    by (auto simp: zrepr_def)
  have i1: "int32 (max (hto A) (hto B) + 1) = max (hto A) (hto B) + 1"
    using sm unfolding small_def by (intro int32_node) linarith+
  have i2: "int32 (max (max (hto A) (hto B) + 1) (hto C) + 1) = max (max (hto A) (hto B) + 1) (hto C) + 1"
    using sm unfolding small_def by (intro int32_node) linarith+
  show ?thesis
    using f sm[unfolded small_def]
    apply -
    apply (rule exI)+
    apply (rule conjI)
     apply (simp add: rotateLeft_def rl update_def max_if i1 i2 Int_commute cong: bind_weak_cong)
    apply (simp add: zrepr_def node_t_def steady_def Int_commute)
    apply (auto simp: domI insert_absorb int32_id)
    done
qed


lemma rotateRight_zrepr:
  assumes z: "zrepr (cells h) (root m) (Nd (Nd A x kx cx B) y ky cy C) fs"
    and sm: "small A" "small B" "small C"
  shows "\<exists>h' m'. rotateRight h m (Some y) = Some (h', m', Some x) \<and>
           zrepr (cells h') (root m') (node_t A x kx (node_t B y ky C)) fs \<and>
           steady (addrs (Nd (Nd A x kx cx B) y ky cy C) \<union> caddrs fs) h m h' m'"
proof -
  have rl: "relink hh m (cpar fs) (Some y) v = Some (hh\<lparr>cells := chole (cells hh) fs v\<rparr>, m\<lparr>root := croot v fs\<rparr>)"
    if "reprc (cells hh) (Some y) fs" for hh v
    using that z by (intro relink_reprc) (auto simp: zrepr_def)
  from z have f:
    "cells h y = Some \<lparr>val = ky, left = Some x, right = rootp C, parent = cpar fs, height = cy\<rparr>"
    "cells h x = Some \<lparr>val = kx, left = rootp A, right = rootp B, parent = Some y, height = cx\<rparr>"
    "repr (cells h) (Some x) A" "repr (cells h) (Some x) B" "repr (cells h) (Some y) C"
    "reprc (cells h) (Some y) fs"
    "x \<noteq> y" "x \<notin> addrs A" "x \<notin> addrs B" "x \<notin> addrs C" "y \<notin> addrs A" "y \<notin> addrs B" "y \<notin> addrs C"
    "x \<notin> caddrs fs" "y \<notin> caddrs fs"
    "addrs A \<inter> addrs B = {}" "addrs A \<inter> addrs C = {}" "addrs B \<inter> addrs C = {}"
    "addrs A \<inter> caddrs fs = {}" "addrs B \<inter> caddrs fs = {}" "addrs C \<inter> caddrs fs = {}"
    "root m = croot (Some y) fs"
    by (auto simp: zrepr_def)
  have i1: "int32 (max (hto B) (hto C) + 1) = max (hto B) (hto C) + 1"
    using sm unfolding small_def by (intro int32_node) linarith+
  have i2: "int32 (max (hto A) (max (hto B) (hto C) + 1) + 1) = max (hto A) (max (hto B) (hto C) + 1) + 1"
    using sm unfolding small_def by (intro int32_node) linarith+
  show ?thesis
    using f sm[unfolded small_def]
    apply -
    apply (rule exI)+
    apply (rule conjI)
     apply (simp add: rotateRight_def rl update_def max_if i1 i2 Int_commute cong: bind_weak_cong)
    apply (simp add: zrepr_def node_t_def steady_def Int_commute)
    apply (auto simp: domI insert_absorb int32_id)
    done
qed

lemma update_zrepr:
  assumes z: "zrepr (cells h) rt (Nd l a kv c r) fs"
    and sm: "small l" "small r"
  shows "\<exists>h'. update h (Some a) = Some h' \<and> zrepr (cells h') rt (node_t l a kv r) fs \<and>
           steady {a} h m h' m"
proof -
  from z have f:
    "cells h a = Some \<lparr>val = kv, left = rootp l, right = rootp r, parent = cpar fs, height = c\<rparr>"
    "repr (cells h) (Some a) l" "repr (cells h) (Some a) r" "reprc (cells h) (Some a) fs"
    "a \<notin> addrs l" "a \<notin> addrs r" "a \<notin> caddrs fs" "addrs l \<inter> addrs r = {}"
    "addrs l \<inter> caddrs fs = {}" "addrs r \<inter> caddrs fs = {}" "rt = croot (Some a) fs"
    by (auto simp: zrepr_def)
  have i1: "int32 (max (hto l) (hto r) + 1) = max (hto l) (hto r) + 1"
    using sm unfolding small_def by (intro int32_node) linarith+
  show ?thesis
    using f sm[unfolded small_def]
    apply -
    apply (rule exI)+
    apply (rule conjI)
     apply (simp add: update_def max_if i1 cong: bind_weak_cong)
    apply (simp add: zrepr_def node_t_def steady_def Int_commute)
    apply (auto simp: domI insert_absorb int32_id)
    done
qed

lemma balance_zrepr:
  assumes z: "zrepr (cells h) rt (Nd l a kv c r) fs"
    and sm: "small l" "small r"
  shows "balance h (Some a) = Some (hto r - hto l)"
proof -
  have i1: "int32 (hto r - hto l) = hto r - hto l"
    using sm unfolding small_def by (intro int32_diff) linarith+
  show ?thesis using z by (auto simp: zrepr_def balance_def i1)
qed


lemma steady_trans:
  assumes "steady S h m h1 m1" "steady S' h1 m1 h2 m2" "S \<subseteq> S''" "S' \<subseteq> S''"
  shows "steady S'' h m h2 m2"
proof -
  have "a \<notin> S \<and> a \<notin> S'" if "a \<notin> S''" for a using that assms(3,4) by blast
  then show ?thesis using assms(1,2) by (simp add: steady_def)
qed

lemma steady_refl: "steady S h m h m"
  by (simp add: steady_def)

lemma steady_mono: "steady S h m h' m' \<Longrightarrow> S \<subseteq> S' \<Longrightarrow> steady S' h m h' m'"
  by (auto simp: steady_def)

lemma zrepr_down:
  "zrepr cs rt (Nd l a kv c r) fs = zrepr cs rt l (Fr True a kv c r # fs)"
  "zrepr cs rt (Nd l a kv c r) fs = zrepr cs rt r (Fr False a kv c l # fs)"
  by (simp_all add: zrepr_plug)

lemma zrepr_downL: "zrepr cs rt (Nd l a kv c r) fs \<Longrightarrow> zrepr cs rt l (Fr True a kv c r # fs)"
  by (simp add: zrepr_plug)

lemma zrepr_downR: "zrepr cs rt (Nd l a kv c r) fs \<Longrightarrow> zrepr cs rt r (Fr False a kv c l # fs)"
  by (simp add: zrepr_plug)

lemma zrepr_upL: "zrepr cs rt l (Fr True a kv c r # fs) \<Longrightarrow> zrepr cs rt (Nd l a kv c r) fs"
  by (simp add: zrepr_plug)

lemma zrepr_upR: "zrepr cs rt r (Fr False a kv c l # fs) \<Longrightarrow> zrepr cs rt (Nd l a kv c r) fs"
  by (simp add: zrepr_plug)

lemma cell_zrepr:
  "zrepr cs rt (Nd l a kv c r) fs \<Longrightarrow> cs a = Some \<lparr>val = kv, left = rootp l, right = rootp r, parent = cpar fs, height = c\<rparr>"
  by (simp add: zrepr_def)

lemma rebalanceAt_zrepr:
  assumes z: "zrepr (cells h) (root m) (Nd l a kv c r) fs" and l: "havl l" and r: "havl r"
    and sl: "small l" and sr: "small r"
  shows "\<exists>h' m'. rebalanceAt h m (Some a) = Some (h', m') \<and>
           zrepr (cells h') (root m') (rebal_t (Nd l a kv c r)) fs \<and>
           steady (addrs (Nd l a kv c r) \<union> caddrs fs) h m h' m'"
proof -
  let ?S = "addrs (Nd l a kv c r) \<union> caddrs fs"
  define c' where "c' = max (hto l) (hto r) + 1"
  obtain h1 where h1: "update h (Some a) = Some h1" "zrepr (cells h1) (root m) (Nd l a kv c' r) fs"
    "steady {a} h m h1 m"
    using update_zrepr[OF z sl sr, of m] by (auto simp: node_t_def c'_def)
  have bf: "balance h1 (Some a) = Some (hto r - hto l)" using balance_zrepr[OF h1(2) sl sr] .
  have s1: "steady ?S h m h1 m" using h1(3) by (rule steady_mono) auto
  consider (R) "hto r - hto l > 1" | (L) "hto r - hto l < - 1" | (N) "\<not> hto r - hto l > 1" "\<not> hto r - hto l < - 1"
    by linarith
  then show ?thesis
  proof cases
    case N
    then show ?thesis using h1 bf s1 by (simp add: rebalanceAt_def node_t_def c'_def)
  next
    case R
    with hto_nonneg[OF l] hto_0[OF r] obtain rl rx rkv rc rr where rN: "r = Nd rl rx rkv rc rr"
      by (cases r) auto
    have sr': "small rl" "small rr" "hto rl < rc" "hto rr < rc" "rc \<le> 1073741824"
      using small_sub[OF r[unfolded rN] sr[unfolded rN]] by auto
    have br: "balance h1 (Some rx) = Some (hto rr - hto rl)"
      using h1(2)[unfolded rN, THEN zrepr_downR] sr'(1,2) by (rule balance_zrepr)
    show ?thesis
    proof (cases "hto rr - hto rl < 0")
      case False
      obtain h2 m2 where h2: "rotateLeft h1 m (Some a) = Some (h2, m2, Some rx)"
        "zrepr (cells h2) (root m2) (node_t (node_t l a kv rl) rx rkv rr) fs"
        "steady (addrs (Nd l a kv c' (Nd rl rx rkv rc rr)) \<union> caddrs fs) h1 m h2 m2"
        using rotateLeft_zrepr[OF h1(2)[unfolded rN] sl sr'(1,2)] by blast
      have "steady ?S h m h2 m2" using s1 h2(3) by (rule steady_trans) (auto simp: rN)
      then show ?thesis using h1(1) bf br R False h2(1,2) cell_zrepr[OF h1(2)]
        by (simp add: rebalanceAt_def rN node_t_def)
    next
      case True
      with r hto_nonneg[of rr] hto_0[of rl] obtain A x kx cx B where lN: "rl = Nd A x kx cx B"
        unfolding rN by (cases rl) auto
      have z1: "zrepr (cells h1) (root m) (Nd (Nd A x kx cx B) rx rkv rc rr) (Fr False a kv c' l # fs)"
        using h1(2)[unfolded rN lN, THEN zrepr_downR] .
      have hrl: "havl (Nd A x kx cx B)" using r unfolding rN lN by simp
      have sA: "small A" "small B" "hto A < cx" "hto B < cx"
        using small_sub[OF hrl sr'(1)[unfolded lN]] by auto
      have sN: "small (node_t B rx rkv rr)"
        using sA(2) sr'(2) sA(4) sr'(3,4,5) unfolding lN by (intro small_node[where b = rc]) auto
      obtain h2 m2 where h2: "rotateRight h1 m (Some rx) = Some (h2, m2, Some x)"
        "zrepr (cells h2) (root m2) (node_t A x kx (node_t B rx rkv rr)) (Fr False a kv c' l # fs)"
        "steady (addrs (Nd (Nd A x kx cx B) rx rkv rc rr) \<union> caddrs (Fr False a kv c' l # fs)) h1 m h2 m2"
        using rotateRight_zrepr[OF z1 sA(1,2) sr'(2)] by blast
      have z2: "zrepr (cells h2) (root m2) (Nd l a kv c' (Nd A x kx (max (hto A) (hto (node_t B rx rkv rr)) + 1) (node_t B rx rkv rr))) fs"
        using h2(2)[THEN zrepr_upR] unfolding node_t_def[of A] .
      obtain h3 m3 where h3: "rotateLeft h2 m2 (Some a) = Some (h3, m3, Some x)"
        "zrepr (cells h3) (root m3) (node_t (node_t l a kv A) x kx (node_t B rx rkv rr)) fs"
        "steady (addrs (Nd l a kv c' (Nd A x kx (max (hto A) (hto (node_t B rx rkv rr)) + 1) (node_t B rx rkv rr))) \<union> caddrs fs) h2 m2 h3 m3"
        using rotateLeft_zrepr[OF z2 sl sA(1) sN] by blast
      have "steady ?S h1 m h3 m3" using h2(3) h3(3) by (rule steady_trans) (auto simp: rN lN node_t_def)
      with s1 have "steady ?S h m h3 m3" by (rule steady_trans) auto
      then show ?thesis using h1(1) bf br R True h2(1) h3(1,2) cell_zrepr[OF h1(2)]
        by (simp add: rebalanceAt_def rN lN node_t_def)
    qed
  next
    case L
    with hto_nonneg[OF r] hto_0[OF l] obtain ll lx lkv lc lr where lN: "l = Nd ll lx lkv lc lr"
      by (cases l) auto
    have sl': "small ll" "small lr" "hto ll < lc" "hto lr < lc" "lc \<le> 1073741824"
      using small_sub[OF l[unfolded lN] sl[unfolded lN]] by auto
    have bl: "balance h1 (Some lx) = Some (hto lr - hto ll)"
      using h1(2)[unfolded lN, THEN zrepr_downL] sl'(1,2) by (rule balance_zrepr)
    have nR: "\<not> hto r - hto l > 1" using L by simp
    show ?thesis
    proof (cases "hto lr - hto ll > 0")
      case False
      obtain h2 m2 where h2: "rotateRight h1 m (Some a) = Some (h2, m2, Some lx)"
        "zrepr (cells h2) (root m2) (node_t ll lx lkv (node_t lr a kv r)) fs"
        "steady (addrs (Nd (Nd ll lx lkv lc lr) a kv c' r) \<union> caddrs fs) h1 m h2 m2"
        using rotateRight_zrepr[OF h1(2)[unfolded lN] sl'(1,2) sr] by blast
      have "steady ?S h m h2 m2" using s1 h2(3) by (rule steady_trans) (auto simp: lN)
      then show ?thesis using h1(1) bf bl L nR False h2(1,2) cell_zrepr[OF h1(2)]
        by (simp add: rebalanceAt_def lN node_t_def)
    next
      case True
      with l hto_nonneg[of ll] hto_0[of lr] obtain B y ky cy C where rN: "lr = Nd B y ky cy C"
        unfolding lN by (cases lr) auto
      have z1: "zrepr (cells h1) (root m) (Nd ll lx lkv lc (Nd B y ky cy C)) (Fr True a kv c' r # fs)"
        using h1(2)[unfolded rN lN, THEN zrepr_downL] .
      have hlr: "havl (Nd B y ky cy C)" using l unfolding rN lN by simp
      have sB: "small B" "small C" "hto B < cy" "hto C < cy"
        using small_sub[OF hlr sl'(2)[unfolded rN]] by auto
      have sN: "small (node_t ll lx lkv B)"
        using sl'(1) sB(1) sB(3) sl'(3,4,5) unfolding rN by (intro small_node[where b = lc]) auto
      obtain h2 m2 where h2: "rotateLeft h1 m (Some lx) = Some (h2, m2, Some y)"
        "zrepr (cells h2) (root m2) (node_t (node_t ll lx lkv B) y ky C) (Fr True a kv c' r # fs)"
        "steady (addrs (Nd ll lx lkv lc (Nd B y ky cy C)) \<union> caddrs (Fr True a kv c' r # fs)) h1 m h2 m2"
        using rotateLeft_zrepr[OF z1 sl'(1) sB(1,2)] by blast
      have z2: "zrepr (cells h2) (root m2) (Nd (Nd (node_t ll lx lkv B) y ky (max (hto (node_t ll lx lkv B)) (hto C) + 1) C) a kv c' r) fs"
        using h2(2)[THEN zrepr_upL] unfolding node_t_def[of "node_t ll lx lkv B"] .
      obtain h3 m3 where h3: "rotateRight h2 m2 (Some a) = Some (h3, m3, Some y)"
        "zrepr (cells h3) (root m3) (node_t (node_t ll lx lkv B) y ky (node_t C a kv r)) fs"
        "steady (addrs (Nd (Nd (node_t ll lx lkv B) y ky (max (hto (node_t ll lx lkv B)) (hto C) + 1) C) a kv c' r) \<union> caddrs fs) h2 m2 h3 m3"
        using rotateRight_zrepr[OF z2 sN sB(2) sr] by blast
      have "steady ?S h1 m h3 m3" using h2(3) h3(3) by (rule steady_trans) (auto simp: rN lN node_t_def)
      with s1 have "steady ?S h m h3 m3" by (rule steady_trans) auto
      then show ?thesis using h1(1) bf bl L nR True h2(1) h3(1,2) cell_zrepr[OF h1(2)]
        by (simp add: rebalanceAt_def rN lN node_t_def)
    qed
  qed
qed


lemma inorder_rotL [simp]: "inorder (rotL_t t) = inorder t"
  by (induction t rule: rotL_t.induct) (auto simp: node_t_def)

lemma inorder_rotR [simp]: "inorder (rotR_t t) = inorder t"
  by (induction t rule: rotR_t.induct) (auto simp: node_t_def)

lemma inorder_rebal [simp]: "inorder (rebal_t t) = inorder t"
  by (cases t) (auto simp: node_t_def)

lemma rebal_havl_id: "havl t \<Longrightarrow> rebal_t t = t"
  by (cases t) (auto simp: node_t_def)

lemma rebal_havl:
  assumes "havl l" "havl r" "\<bar>hto l - hto r\<bar> \<le> 2"
  shows "havl (rebal_t (Nd l a kv c r)) \<and> near_root a (rebal_t (Nd l a kv c r)) \<and>
         (if \<bar>hto l - hto r\<bar> \<le> 1 then hto (rebal_t (Nd l a kv c r)) = max (hto l) (hto r) + 1
          else hto (rebal_t (Nd l a kv c r)) = max (hto l) (hto r) \<or>
               hto (rebal_t (Nd l a kv c r)) = max (hto l) (hto r) + 1)"
proof -
  consider (R) "hto r - hto l > 1" | (L) "hto r - hto l < - 1" | (N) "\<not> hto r - hto l > 1" "\<not> hto r - hto l < - 1"
    by linarith
  then show ?thesis
  proof cases
    case N
    then show ?thesis using assms by (auto simp: node_t_def)
  next
    case R
    with hto_nonneg[OF assms(1)] hto_0[OF assms(2)] obtain rl rx rkv rc rr where rN: "r = Nd rl rx rkv rc rr"
      by (cases r) auto
    show ?thesis
    proof (cases "hto rr - hto rl < 0")
      case False
      then show ?thesis using assms R unfolding rN by (auto simp: node_t_def)
    next
      case True
      with assms(2) hto_nonneg[of rr] hto_0[of rl] obtain A x kx cx B where lN: "rl = Nd A x kx cx B"
        unfolding rN by (cases rl) auto
      show ?thesis using assms R True unfolding rN lN by (auto simp: node_t_def)
    qed
  next
    case L
    with hto_nonneg[OF assms(2)] hto_0[OF assms(1)] obtain ll lx lkv lc lr where lN: "l = Nd ll lx lkv lc lr"
      by (cases l) auto
    show ?thesis
    proof (cases "hto lr - hto ll > 0")
      case False
      then show ?thesis using assms L unfolding lN by (auto simp: node_t_def)
    next
      case True
      with assms(1) hto_nonneg[of ll] hto_0[of lr] obtain B y ky cy C where rN: "lr = Nd B y ky cy C"
        unfolding lN by (cases lr) auto
      show ?thesis using assms L True unfolding rN lN by (auto simp: node_t_def)
    qed
  qed
qed

lemma addrs_inorder: "addrs t = fst ` set (inorder t)"
  by (induction t) (auto simp: image_Un)

lemma addrs_rebal [simp]: "addrs (rebal_t t) = addrs t"
  unfolding addrs_inorder by simp

lemma havl_plug: "havl (plug t fs) \<Longrightarrow> havl t \<and> cavl (hto t) fs"
proof (induction t fs rule: plug.induct)
  case (1 t)
  then show ?case by simp
next
  case (2 t f fs)
  obtain isL a kv c s where f: "f = Fr isL a kv c s" by (cases f)
  from 2 have "havl (plug1 t f)" "cavl (hto (plug1 t f)) fs" by auto
  then show ?case unfolding f by (auto split: if_splits simp: max.commute abs_minus_commute)
qed

declare rebal_t.simps [simp del]


lemma repr_root_cell:
  "repr cs par t \<Longrightarrow> rootp t = Some p \<Longrightarrow> \<exists>n. cs p = Some n \<and> parent n = par"
  by (cases t) auto

lemma zrepr_child_parent:
  assumes "zrepr cs rt (Nd l a kv c r) fs" "rootp l = Some p \<or> rootp r = Some p"
  shows "\<exists>n. cs p = Some n \<and> parent n = Some a"
  using assms repr_root_cell[of cs "Some a" l p] repr_root_cell[of cs "Some a" r p]
  by (auto simp: zrepr_def)

lemma rebalanceUp_root:
  assumes IH: "\<And>h m. zrepr (cells h) (root m) t fs \<Longrightarrow>
                 \<exists>h' m'. rebalanceUp h m (cpar fs) = Some (h', m') \<and> P h' m' \<and> steady S h m h' m'"
    and z: "zrepr (cells h) (root m) t fs" and t: "havl t" and n: "rootp t = Some p"
    and S: "addrs t \<union> caddrs fs \<subseteq> S" and sm: "small t"
  shows "\<exists>h' m'. rebalanceUp h m (Some p) = Some (h', m') \<and> P h' m' \<and> steady S h m h' m'"
proof -
  from n obtain l kv c r where tN: "t = Nd l p kv c r" by (cases t) auto
  from t have lr: "havl l" "havl r" unfolding tN by auto
  have slr: "small l" "small r" using small_sub[OF t[unfolded tN] sm[unfolded tN]] by auto
  obtain h1 m1 where 1: "rebalanceAt h m (Some p) = Some (h1, m1)" "zrepr (cells h1) (root m1) t fs"
    "steady (addrs t \<union> caddrs fs) h m h1 m1"
    using rebalanceAt_zrepr[OF z[unfolded tN] lr slr] rebal_havl_id[OF t] unfolding tN by auto
  have par: "map_option parent (cells h1 p) = Some (cpar fs)"
    using cell_zrepr[OF 1(2)[unfolded tN]] by simp
  obtain h' m' where 2: "rebalanceUp h1 m1 (cpar fs) = Some (h', m')" "P h' m'" "steady S h1 m1 h' m'"
    using IH[OF 1(2)] by blast
  have "rebalanceUp h m (Some p) = Some (h', m')"
    by (subst rebalanceUp.simps) (simp add: 1(1) par 2(1))
  moreover have "steady S h m h' m'" using 1(3) 2(3) S by (rule steady_trans) auto
  ultimately show ?thesis using 2(2) by blast
qed


lemma rebalanceUp_near:
  assumes IH: "\<And>h m. zrepr (cells h) (root m) t fs \<Longrightarrow>
                 \<exists>h' m'. rebalanceUp h m (cpar fs) = Some (h', m') \<and> P h' m' \<and> steady S h m h' m'"
    and z: "zrepr (cells h) (root m) t fs" and t: "havl t" and n: "near_root p t"
    and S: "addrs t \<union> caddrs fs \<subseteq> S" and sm: "small t"
  shows "\<exists>h' m'. rebalanceUp h m (Some p) = Some (h', m') \<and> P h' m' \<and> steady S h m h' m'"
proof -
  from n obtain l a kv c r where tN: "t = Nd l a kv c r" by (cases t) auto
  from t have lr: "havl l" "havl r" unfolding tN by auto
  have slr: "small l" "small r" using small_sub[OF t[unfolded tN] sm[unfolded tN]] by auto
  show ?thesis
  proof (cases "p = a")
    case True
    then show ?thesis using rebalanceUp_root[of t fs P S h m p, OF IH z t _ S sm] tN by simp
  next
    case False
    with n have ch: "rootp l = Some p \<or> rootp r = Some p" unfolding tN by simp
    define u where "u = (if rootp l = Some p then l else r)"
    define f where "f = (if rootp l = Some p then Fr True a kv c r else Fr False a kv c l)"
    have pl: "plug1 u f = t" "rootp u = Some p" "havl u"
      using ch lr False z unfolding u_def f_def tN
      by (auto simp: zrepr_def dest: rootp_Some)
    have su: "small u" using slr unfolding u_def by simp
    have zu: "zrepr (cells h) (root m) u (f # fs)"
      if "zrepr (cells h) (root m) t fs" for h m
      using that pl(1) by (simp add: zrepr_plug)
    have zt: "zrepr (cells h) (root m) t fs"
      if "zrepr (cells h) (root m) u (f # fs)" for h m
      using that pl(1) by (simp add: zrepr_plug)
    obtain ul kvu cu ur where uN: "u = Nd ul p kvu cu ur" using pl(2) by (cases u) auto
    have ulr: "havl ul" "havl ur" using pl(3) unfolding uN by auto
    have sulr: "small ul" "small ur" using small_sub[OF pl(3)[unfolded uN] su[unfolded uN]] by auto
    have ad: "addrs u \<union> caddrs (f # fs) = addrs t \<union> caddrs fs"
      using pl(1) addrs_plug[of u "[f]"] caddrs_Cons[of f fs] by auto
    obtain h1 m1 where 1: "rebalanceAt h m (Some p) = Some (h1, m1)" "zrepr (cells h1) (root m1) u (f # fs)"
      "steady (addrs t \<union> caddrs fs) h m h1 m1"
      using rebalanceAt_zrepr[OF zu[OF z, unfolded uN] ulr sulr] rebal_havl_id[OF pl(3)] ad unfolding uN by auto
    have z1: "zrepr (cells h1) (root m1) t fs" using 1(2) by (rule zt)
    have par: "map_option parent (cells h1 p) = Some (Some a)"
      using zrepr_child_parent[OF z1[unfolded tN] ch] by auto
    obtain h' m' where 2: "rebalanceUp h1 m1 (Some a) = Some (h', m')" "P h' m'" "steady S h1 m1 h' m'"
      using rebalanceUp_root[of t fs P S h1 m1 a, OF IH z1 t _ S sm] tN by auto
    have "rebalanceUp h m (Some p) = Some (h', m')"
      by (subst rebalanceUp.simps) (simp add: 1(1) par 2(1))
    moreover have "steady S h m h' m'" using 1(3) 2(3) S by (rule steady_trans) auto
    ultimately show ?thesis using 2(2) by blast
  qed
qed


lemma step_arith:
  fixes a b c hold :: int
  assumes "\<bar>a - hold\<bar> \<le> 1" "\<bar>b - hold\<bar> \<le> 1"
    "if \<bar>a - b\<bar> \<le> 1 then c = max a b + 1 else c = max a b \<or> c = max a b + 1"
  shows "\<bar>c - (max hold b + 1)\<bar> \<le> 1"
proof (cases "\<bar>a - b\<bar> \<le> 1")
  case True
  with assms have "c = max a b + 1" by simp
  then show ?thesis using assms(1,2) by linarith
next
  case False
  with assms have "c = max a b \<or> c = max a b + 1" by simp
  then show ?thesis using assms(1,2) False by linarith
qed

lemma hup_plug: "havl (plug t fs) \<Longrightarrow> hup (hto t) fs = hto (plug t fs)"
proof (induction t fs rule: plug.induct)
  case (1 t)
  show ?case by simp
next
  case (2 t f fs)
  obtain isL a kv c s where f: "f = Fr isL a kv c s" by (cases f)
  have "havl (plug1 t f)" using havl_plug[of "plug1 t f" fs] 2(2) by simp
  then have "hto (plug1 t f) = max (hto t) (hto s) + 1" unfolding f by (auto simp: max.commute split: if_splits)
  then show ?case using 2 unfolding f by simp
qed

lemma hup_ge: "hold \<le> hup hold fs"
proof (induction fs arbitrary: hold)
  case Nil
  show ?case by simp
next
  case (Cons f fs)
  obtain isL q kq cq s where f: "f = Fr isL q kq cq s" by (cases f)
  show ?case using Cons.IH[of "max hold (hto s) + 1"] unfolding f by simp
qed

lemma rebalanceUp_zrepr:
  "zrepr (cells h) (root m) t fs \<Longrightarrow> havl t \<Longrightarrow> \<bar>hto t - hold\<bar> \<le> 1 \<Longrightarrow> cavl hold fs \<Longrightarrow>
   hup hold fs < 1073741824 \<Longrightarrow>
   \<exists>h' m'. rebalanceUp h m (cpar fs) = Some (h', m') \<and>
     (\<exists>t'. zrepr (cells h') (root m') t' [] \<and> havl t' \<and> inorder t' = inorder (plug t fs) \<and>
           hto t' \<le> hup hold fs + 1) \<and>
     steady (addrs t \<union> caddrs fs) h m h' m'"
proof (induction fs arbitrary: h m t hold)
  case Nil
  have "rebalanceUp h m (cpar []) = Some (h, m)" by (subst rebalanceUp.simps) simp
  moreover have "hto t \<le> hold + 1" using Nil.prems(3) by linarith
  ultimately show ?case using Nil steady_refl[of "addrs t \<union> caddrs []" h m] by auto
next
  case (Cons f fs)
  obtain isL q kq cq s where f: "f = Fr isL q kq cq s" by (cases f)
  define l where "l = (if isL then t else s)"
  define r where "r = (if isL then s else t)"
  have p1: "plug1 t f = Nd l q kq cq r" unfolding f l_def r_def by simp
  have z1: "zrepr (cells h) (root m) (Nd l q kq cq r) fs"
    using Cons.prems(1) p1 by (simp add: zrepr_plug)
  have hs: "havl s" "\<bar>hto s - hold\<bar> \<le> 1" "cavl (max hold (hto s) + 1) fs"
    using Cons.prems(4) unfolding f by auto
  have lr: "havl l" "havl r" "\<bar>hto l - hto r\<bar> \<le> 2"
    using hs Cons.prems(2,3) unfolding l_def r_def by auto
  have hb: "max hold (hto s) + 1 < 1073741824"
    using Cons.prems(5) hup_ge[of "max hold (hto s) + 1" fs] unfolding f hup.simps by linarith
  have slr: "small l" "small r"
    using hb hs(2) Cons.prems(3) hto_nonneg[OF hs(1)] hto_nonneg[OF Cons.prems(2)]
    unfolding l_def r_def small_def by auto
  define t2 where "t2 = rebal_t (Nd l q kq cq r)"
  have ad: "addrs (Nd l q kq cq r) \<union> caddrs fs = addrs t \<union> caddrs (f # fs)"
    unfolding f l_def r_def by auto
  obtain h1 m1 where 1: "rebalanceAt h m (Some q) = Some (h1, m1)" "zrepr (cells h1) (root m1) t2 fs"
    "steady (addrs t \<union> caddrs (f # fs)) h m h1 m1"
    using rebalanceAt_zrepr[OF z1 lr(1,2) slr] ad unfolding t2_def by auto
  have t2a: "havl t2 \<and> near_root q t2 \<and>
         (if \<bar>hto l - hto r\<bar> \<le> 1 then hto t2 = max (hto l) (hto r) + 1
          else hto t2 = max (hto l) (hto r) \<or> hto t2 = max (hto l) (hto r) + 1)"
    using rebal_havl[OF lr, of q kq cq] unfolding t2_def .
  have hlr: "\<bar>hto l - hto r\<bar> = \<bar>hto t - hto s\<bar>" "max (hto l) (hto r) = max (hto t) (hto s)"
    unfolding l_def r_def by auto
  have t2: "havl t2" "near_root q t2" "\<bar>hto t2 - (max hold (hto s) + 1)\<bar> \<le> 1"
    using t2a step_arith[OF Cons.prems(3) hs(2), of "hto t2"] unfolding hlr by auto
  have hb2: "hup (max hold (hto s) + 1) fs < 1073741824" using Cons.prems(5) unfolding f by simp
  have st2: "small t2" using t2(3) hb hto_nonneg[OF t2(1)] unfolding small_def by auto
  have io: "inorder (plug t2 fs) = inorder (plug t (f # fs))"
  proof -
    have X: "inorder (plug u fs) = inorder (plug v fs)" if "inorder u = inorder v" for u v :: "('a, 'b) tree"
      using that
    proof (induction fs arbitrary: u v)
      case Nil then show ?case by simp
    next
      case (Cons g gs)
      obtain b1 b2 b3 b4 b5 where "g = Fr b1 b2 b3 b4 b5" by (cases g)
      then show ?case using Cons.prems by (auto intro!: Cons.IH)
    qed
    have "inorder (plug t2 fs) = inorder (plug (plug1 t f) fs)"
      by (rule X) (simp add: p1 t2_def)
    then show ?thesis by simp
  qed
  have ad2: "addrs t2 \<union> caddrs fs = addrs t \<union> caddrs (f # fs)"
    using ad unfolding t2_def by simp
  let ?P = "\<lambda>h' m'. \<exists>t'. zrepr (cells h') (root m') t' [] \<and> havl t' \<and> inorder t' = inorder (plug t (f # fs)) \<and>
                hto t' \<le> hup hold (f # fs) + 1"
  let ?S = "addrs t \<union> caddrs (f # fs)"
  have IH: "\<exists>h' m'. rebalanceUp h m (cpar fs) = Some (h', m') \<and> ?P h' m' \<and> steady ?S h m h' m'"
    if "zrepr (cells h) (root m) t2 fs" for h m
    using Cons.IH[OF that t2(1,3) hs(3) hb2] io ad2 unfolding f by simp
  obtain t2l t2a t2kv t2c t2r where t2N: "t2 = Nd t2l t2a t2kv t2c t2r"
    using t2(2) by (cases t2) auto
  have "\<exists>h' m'. (map_option parent (cells h1 q) \<bind> rebalanceUp h1 m1) = Some (h', m') \<and> ?P h' m' \<and> steady ?S h1 m1 h' m'"
  proof (cases "q = t2a")
    case True
    have "map_option parent (cells h1 q) = Some (cpar fs)"
      using cell_zrepr[OF 1(2)[unfolded t2N]] True by simp
    then show ?thesis using IH[OF 1(2)] by auto
  next
    case False
    then have ch: "rootp t2l = Some q \<or> rootp t2r = Some q" using t2(2) unfolding t2N by simp
    have "map_option parent (cells h1 q) = Some (Some t2a)"
      using zrepr_child_parent[OF 1(2)[unfolded t2N] ch] by auto
    moreover have "\<exists>h' m'. rebalanceUp h1 m1 (Some t2a) = Some (h', m') \<and> ?P h' m' \<and> steady ?S h1 m1 h' m'"
    proof (rule rebalanceUp_root[of t2 fs ?P ?S h1 m1 t2a, OF IH 1(2) t2(1)])
      show "rootp t2 = Some t2a" unfolding t2N by simp
      show "addrs t2 \<union> caddrs fs \<subseteq> ?S" using ad2 by simp
      show "small t2" by (rule st2)
    qed
    ultimately show ?thesis by auto
  qed
  then obtain h' m' where 2: "(map_option parent (cells h1 q) \<bind> rebalanceUp h1 m1) = Some (h', m')" "?P h' m'"
    "steady ?S h1 m1 h' m'" by blast
  have "rebalanceUp h m (cpar (f # fs)) = Some (h', m')"
    unfolding f by (subst rebalanceUp.simps) (simp add: 1(1) 2(1))
  moreover have "steady ?S h m h' m'" using 1(3) 2(3) by (rule steady_trans) auto
  ultimately show ?case using 2(2) by blast
qed


lemma inorder_plug: "inorder (plug t fs) = before fs @ inorder t @ after fs"
proof (induction t fs rule: plug.induct)
  case (1 t)
  then show ?case by simp
next
  case (2 t f fs)
  obtain isL a kv c s where f: "f = Fr isL a kv c s" by (cases f)
  show ?case using 2 unfolding f by simp
qed

lemma plug_descend: "descend c k t fs = (t', fs') \<Longrightarrow> plug t' fs' = plug t fs"
  by (induction c k t fs rule: descend.induct) (auto split: if_splits)

lemma zrepr_descend:
  "descend c k t fs = (t', fs') \<Longrightarrow> zrepr cs rt t fs \<Longrightarrow> zrepr cs rt t' fs'"
  using plug_descend[of c k t fs t' fs'] by (simp add: zrepr_plug)

lemma insert_loop_zrepr:
  "zrepr (cells h) rt t fs \<Longrightarrow> descend (cmp m) k t fs = (t', fs') \<Longrightarrow>
   insert_loop h m k (rootp t) (cpar fs) (dirflag fs) =
     Some (if t' = Lf then Inr (cpar fs', dirflag fs') else Inl (rootp t'))"
proof (induction "cmp m" k t fs rule: descend.induct)
  case (1 k fs)
  then show ?case by (subst insert_loop.simps) auto
next
  case (2 k l a kv ch r fs)
  have c: "cells h a = Some \<lparr>val = kv, left = rootp l, right = rootp r, parent = cpar fs, height = ch\<rparr>"
    using 2(3) by (rule cell_zrepr)
  show ?case
  proof (cases "\<not> cmp m k (fst kv) \<and> \<not> cmp m (fst kv) k")
    case True
    then show ?thesis using 2(4) c by (subst insert_loop.simps) (auto simp: keyEq_def)
  next
    case False
    show ?thesis
    proof (cases "cmp m k (fst kv)")
      case True
      have "insert_loop h m k (rootp l) (cpar (Fr True a kv ch r # fs)) (dirflag (Fr True a kv ch r # fs)) =
            Some (if t' = Lf then Inr (cpar fs', dirflag fs') else Inl (rootp t'))"
        using 2(1)[OF False True zrepr_downL[OF 2(3)]] 2(4) False True by simp
      then show ?thesis using c False True by (subst insert_loop.simps) (auto simp: keyEq_def)
    next
      case F2: False
      have "insert_loop h m k (rootp r) (cpar (Fr False a kv ch l # fs)) (dirflag (Fr False a kv ch l # fs)) =
            Some (if t' = Lf then Inr (cpar fs', dirflag fs') else Inl (rootp t'))"
        using 2(2)[OF False F2 zrepr_downR[OF 2(3)]] 2(4) False F2 by simp
      then show ?thesis using c False F2 by (subst insert_loop.simps) (auto simp: keyEq_def)
    qed
  qed
qed

lemma findNode_loop_zrepr:
  "zrepr (cells h) rt t fs \<Longrightarrow> descend (cmp m) k t fs = (t', fs') \<Longrightarrow>
   findNode_loop h m k (rootp t) = Some (rootp t')"
proof (induction "cmp m" k t fs rule: descend.induct)
  case (1 k fs)
  then show ?case by (subst findNode_loop.simps) auto
next
  case (2 k l a kv ch r fs)
  have c: "cells h a = Some \<lparr>val = kv, left = rootp l, right = rootp r, parent = cpar fs, height = ch\<rparr>"
    using 2(3) by (rule cell_zrepr)
  show ?case
  proof (cases "\<not> cmp m k (fst kv) \<and> \<not> cmp m (fst kv) k")
    case True
    then show ?thesis using 2(4) c by (subst findNode_loop.simps) (auto simp: keyEq_def)
  next
    case False
    show ?thesis
    proof (cases "cmp m k (fst kv)")
      case True
      have "findNode_loop h m k (rootp l) = Some (rootp t')"
        using 2(1)[OF False True zrepr_downL[OF 2(3)]] 2(4) False True by simp
      then show ?thesis using c False True by (subst findNode_loop.simps) (auto simp: keyEq_def)
    next
      case F2: False
      have "findNode_loop h m k (rootp r) = Some (rootp t')"
        using 2(2)[OF False F2 zrepr_downR[OF 2(3)]] 2(4) False F2 by simp
      then show ?thesis using c False F2 by (subst findNode_loop.simps) (auto simp: keyEq_def)
    qed
  qed
qed


lemma repr_dom: "repr cs par t \<Longrightarrow> addrs t \<subseteq> dom cs"
proof (induction t arbitrary: par)
  case Lf
  then show ?case by simp
next
  case (Nd l a kv c r)
  from Nd.prems have "repr cs (Some a) l" "repr cs (Some a) r" "a \<in> dom cs" by auto
  then show ?case using Nd.IH by auto
qed

lemma reprc_dom: "reprc cs p fs \<Longrightarrow> caddrs fs \<subseteq> dom cs"
proof (induction fs arbitrary: p)
  case Nil
  then show ?case by simp
next
  case (Cons f fs)
  obtain isL a kv c s where f: "f = Fr isL a kv c s" by (cases f)
  show ?case using Cons repr_dom[of cs "Some a" s] unfolding f by auto
qed

lemma zrepr_dom: "zrepr cs rt t fs \<Longrightarrow> addrs t \<union> caddrs fs \<subseteq> dom cs"
  using repr_dom reprc_dom unfolding zrepr_def by blast

lemma link_new:
  assumes "reprc (cells h) p0 fs" "root m = croot p0 fs"
  shows "(if cpar fs = None then Some (h, m\<lparr>root := node\<rparr>)
          else if dirflag fs then do { h \<leftarrow> wr h (cpar fs) (\<lambda>n. n\<lparr>left := node\<rparr>); Some (h, m) }
          else do { h \<leftarrow> wr h (cpar fs) (\<lambda>n. n\<lparr>right := node\<rparr>); Some (h, m) }) =
         Some (h\<lparr>cells := chole (cells h) fs node\<rparr>, m\<lparr>root := croot node fs\<rparr>)"
  using assms by (cases fs rule: cpar.cases) auto

lemma map_insert_new:
  assumes z: "zrepr (cells h) (root m) T []" and av: "havl T" and ok: "heap_ok h"
    and d: "descend (cmp m) (fst v) T [] = (Lf, fs)" and mem: "0 < avail h"
    and sm: "hto T < 1073741824"
  shows "\<exists>h' m' T'. map_insert h m this v =
            Some (h', m', Returns (\<lparr>nodePtr = Some (nxt h), owner = Some this\<rparr>, True)) \<and>
          zrepr (cells h') (root m') T' [] \<and> havl T' \<and>
          inorder T' = before fs @ (nxt h, v) # after fs \<and>
          nodeCount m' = nodeCount m + 1 \<and> cmp m' = cmp m \<and>
          nxt h' = nxt h + 1 \<and> avail h' = avail h - 1 \<and>
          dom (cells h') = insert (nxt h) (dom (cells h)) \<and>
          (\<forall>a. a \<notin> addrs T \<and> a \<noteq> nxt h \<longrightarrow> cells h' a = cells h a)"
proof -
  define n where "n = nxt h"
  have pl: "plug Lf fs = T" using plug_descend[OF d] by simp
  have zf: "zrepr (cells h) (root m) Lf fs" using zrepr_descend[OF d z] .
  have fresh: "n \<notin> dom (cells h)" using ok unfolding heap_ok_def n_def by auto
  have nin: "n \<notin> caddrs fs" using zrepr_dom[OF zf] fresh by auto
  have adT: "addrs T = caddrs fs" using addrs_plug[of Lf fs] pl by simp
  define nd :: "('a, 'b) Node" where "nd = \<lparr>val = v, left = None, right = None, parent = cpar fs, height = 1\<rparr>"
  define h1 where "h1 = h\<lparr>cells := (cells h)(n \<mapsto> nd), nxt := nxt h + 1, avail := avail h - 1\<rparr>"
  have nn: "new_Node h v (cpar fs) = (h1, Returns (Some n))"
    using mem by (simp add: new_Node_def h1_def nd_def n_def)
  define h2 where "h2 = h1\<lparr>cells := chole (cells h1) fs (Some n)\<rparr>"
  define m2 where "m2 = m\<lparr>root := croot (Some n) fs, nodeCount := nodeCount m + 1\<rparr>"
  have rc1: "reprc (cells h1) None fs" "root m = croot None fs"
    using zf nin by (auto simp: zrepr_def h1_def)
  have z2: "zrepr (cells h2) (root m2) (Nd Lf n v 1 Lf) fs"
    using rc1 nin by (auto simp: zrepr_def h2_def m2_def h1_def nd_def)
  have cv: "cavl 0 fs" using havl_plug[of Lf fs] av pl by simp
  have hb: "hup 0 fs < 1073741824" using hup_plug[of Lf fs] av pl sm by simp
  obtain h' m' T' where r: "rebalanceUp h2 m2 (cpar fs) = Some (h', m')"
    "zrepr (cells h') (root m') T' []" "havl T'" "inorder T' = inorder (plug (Nd Lf n v 1 Lf) fs)"
    "steady (addrs (Nd Lf n v 1 Lf) \<union> caddrs fs) h2 m2 h' m'"
    using rebalanceUp_zrepr[OF z2, of 0] cv hb by auto
  have il: "insert_loop h m (fst v) (root m) None False = Some (Inr (cpar fs, dirflag fs))"
    using insert_loop_zrepr[OF z d] z by (simp add: zrepr_def)
  have lk: "(if cpar fs = None then Some (h1, m\<lparr>root := Some n\<rparr>)
          else if dirflag fs then do { h \<leftarrow> wr h1 (cpar fs) (\<lambda>x. x\<lparr>left := Some n\<rparr>); Some (h, m) }
          else do { h \<leftarrow> wr h1 (cpar fs) (\<lambda>x. x\<lparr>right := Some n\<rparr>); Some (h, m) }) =
         Some (h2, m\<lparr>root := croot (Some n) fs\<rparr>)"
    unfolding h2_def by (rule link_new[OF rc1])
  have res: "map_insert h m this v = Some (h', m', Returns (\<lparr>nodePtr = Some n, owner = Some this\<rparr>, True))"
    unfolding map_insert_def il using nn lk r(1) by (simp add: m2_def del: wr_simps)
  have d2: "dom (cells h2) = insert n (dom (cells h))"
    using rc1(1) by (simp add: h2_def) (simp add: h1_def)
  have o2: "cells h2 a = cells h a" if "a \<notin> addrs T" "a \<noteq> n" for a
    using that adT by (simp add: h2_def h1_def)
  show ?thesis
    using res r(2,3,4,5) d2 o2 adT
    by (auto simp: n_def[symmetric] inorder_plug steady_def m2_def h2_def h1_def)
qed

subsection \<open>Search-tree order and the descent\<close>

lemma keyEq_equiv: "keyEq m a b = equiv_key (cmp m) a b"
  by (simp add: keyEq_def equiv_key_def)

lemma swo_irrefl: "swo c \<Longrightarrow> \<not> c a a"
  by (auto simp: swo_def)

lemma swo_trans: "swo c \<Longrightarrow> c a b \<Longrightarrow> c b d \<Longrightarrow> c a d"
  unfolding swo_def by blast

lemma swo_split: "swo c \<Longrightarrow> c a b \<Longrightarrow> c a d \<or> c d b"
  unfolding swo_def by blast

lemma equiv_key_less1: "swo c \<Longrightarrow> equiv_key c k x \<Longrightarrow> c x y \<Longrightarrow> c k y"
  using swo_split[of c x y k] by (auto simp: equiv_key_def)

lemma equiv_key_less2: "swo c \<Longrightarrow> equiv_key c k y \<Longrightarrow> c x y \<Longrightarrow> c x k"
  using swo_split[of c x y k] by (auto simp: equiv_key_def)

lemma descend_bounds:
  "descend c k t fs = (t', fs') \<Longrightarrow> swo c \<Longrightarrow>
   sorted_wrt c (map (fst \<circ> snd) (before fs @ inorder t @ after fs)) \<Longrightarrow>
   (\<forall>x \<in> set (before fs). c (fst (snd x)) k) \<Longrightarrow> (\<forall>x \<in> set (after fs). c k (fst (snd x))) \<Longrightarrow>
   (\<forall>x \<in> set (before fs'). c (fst (snd x)) k) \<and> (\<forall>x \<in> set (after fs'). c k (fst (snd x)))"
proof (induction c k t fs rule: descend.induct)
  case (1 c k fs)
  then show ?case by simp
next
  case (2 c k l a kv ch r fs)
  show ?case
  proof (cases "\<not> c k (fst kv) \<and> \<not> c (fst kv) k")
    case True
    then show ?thesis using 2(3,6,7) by simp
  next
    case False
    show ?thesis
    proof (cases "c k (fst kv)")
      case True
      have s: "\<forall>x \<in> set (inorder r). c (fst kv) (fst (snd x))"
        using 2(5) by (auto simp: sorted_wrt_append)
      have a: "\<forall>x \<in> set (after (Fr True a kv ch r # fs)). c k (fst (snd x))"
        using True s 2(7) swo_trans[OF 2(4) True] by auto
      show ?thesis
        using 2(1)[OF False True _ 2(4) _ _ a] 2(3,5,6) False True by simp
    next
      case F2: False
      with False have gt: "c (fst kv) k" by auto
      have s: "\<forall>x \<in> set (inorder l). c (fst (snd x)) (fst kv)"
        using 2(5) by (auto simp: sorted_wrt_append)
      have b: "\<forall>x \<in> set (before (Fr False a kv ch l # fs)). c (fst (snd x)) k"
        using gt s 2(6) swo_trans[OF 2(4) _ gt] by auto
      show ?thesis
        using 2(2)[OF False F2 _ 2(4) _ b] 2(3,5,7) False F2 by simp
    qed
  qed
qed

lemma descend_found:
  "descend c k t fs = (t', fs') \<Longrightarrow> t' \<noteq> Lf \<Longrightarrow>
   \<exists>l a kv ch r. t' = Nd l a kv ch r \<and> equiv_key c k (fst kv)"
  by (induction c k t fs rule: descend.induct) (auto split: if_splits simp: equiv_key_def)

lemma descend_absent:
  assumes d: "descend c k t [] = (Lf, fs)" and s: "swo c" and b: "bst c t"
  shows "\<forall>x \<in> set (entries t). \<not> equiv_key c k (fst x)"
proof -
  have io: "inorder t = before fs @ after fs"
    using plug_descend[OF d] inorder_plug[of Lf fs] by simp
  have "(\<forall>x \<in> set (before fs). c (fst (snd x)) k) \<and> (\<forall>x \<in> set (after fs). c k (fst (snd x)))"
    using descend_bounds[OF d s] b by (simp add: bst_def keys_def entries_def)
  then show ?thesis unfolding entries_def io by (auto simp: equiv_key_def)
qed

lemma descend_present:
  assumes d: "descend c k t [] = (t', fs)" and t': "t' \<noteq> Lf"
  shows "\<exists>a kv. rootp t' = Some a \<and> (a, kv) \<in> set (inorder t) \<and> equiv_key c k (fst kv)"
proof -
  obtain l a kv ch r where t: "t' = Nd l a kv ch r" "equiv_key c k (fst kv)"
    using descend_found[OF d t'] by blast
  have "inorder t = before fs @ inorder t' @ after fs"
    using plug_descend[OF d] inorder_plug[of t' fs] by simp
  then have "(a, kv) \<in> set (inorder t)" using t(1) by simp
  then show ?thesis using t by (intro exI[of _ a] exI[of _ kv]) simp
qed

lemma bst_insert_hole:
  assumes d: "descend c k t [] = (Lf, fs)" and s: "swo c" and b: "bst c t"
  shows "sorted_wrt c (map (fst \<circ> snd) (before fs @ (n, (k, v)) # after fs))"
proof -
  have io: "inorder t = before fs @ after fs"
    using plug_descend[OF d] inorder_plug[of Lf fs] by simp
  have bd: "(\<forall>x \<in> set (before fs). c (fst (snd x)) k) \<and> (\<forall>x \<in> set (after fs). c k (fst (snd x)))"
    using descend_bounds[OF d s] b by (simp add: bst_def keys_def entries_def)
  have "sorted_wrt c (map (fst \<circ> snd) (before fs @ after fs))"
    using b unfolding bst_def keys_def entries_def io by simp
  then show ?thesis using bd by (auto simp: sorted_wrt_append)
qed

lemma equiv_unique:
  assumes s: "swo c" and so: "sorted_wrt c (map f es)"
    and x: "x \<in> set es" "equiv_key c k (f x)" and y: "y \<in> set es" "equiv_key c k (f y)"
  shows "x = y"
proof (rule ccontr)
  assume ne: "x \<noteq> y"
  have nc: "\<not> c (f x) (f y)" "\<not> c (f y) (f x)"
    using equiv_key_less1[OF s x(2), of "f y"] equiv_key_less2[OF s y(2), of "f x"]
      equiv_key_less1[OF s y(2), of "f x"] equiv_key_less2[OF s x(2), of "f y"]
      x(2) y(2) swo_irrefl[OF s, of k]
    by (auto simp: equiv_key_def)
  from x(1) y(1) ne so nc show False
  proof (induction es)
    case Nil
    then show ?case by simp
  next
    case (Cons e es)
    then show ?case by auto
  qed
qed

lemma find_equiv:
  assumes s: "swo c" and so: "sorted_wrt c (map f es)" and x: "x \<in> set es" "equiv_key c k (f x)"
  shows "find (\<lambda>e. equiv_key c k (f e)) es = Some x"
proof -
  have "find (\<lambda>e. equiv_key c k (f e)) es \<noteq> None"
    unfolding find_None_iff using x by blast
  then obtain y where y: "find (\<lambda>e. equiv_key c k (f e)) es = Some y"
    by blast
  then have "y \<in> set es" "equiv_key c k (f y)"
    by (auto simp: find_Some_iff)
  then show ?thesis using equiv_unique[OF s so x] y by simp
qed

subsection \<open>Leftmost nodes, foci and the loop started anywhere\<close>

lemma plug_append: "plug t (fs @ gs) = plug (plug t fs) gs"
  by (induction t fs rule: plug.induct) auto

lemma zrepr_append: "zrepr cs rt t (fs @ gs) = zrepr cs rt (plug t fs) gs"
  by (simp add: zrepr_plug plug_append)

lemma cpar_append: "fs \<noteq> [] \<Longrightarrow> cpar (fs @ gs) = cpar fs"
  by (cases fs rule: cpar.cases) auto

lemma caddrs_append: "caddrs (fs @ gs) = caddrs fs \<union> caddrs gs"
  by (induction fs rule: caddrs.induct) auto

lemma croot_append_frame: "croot p (gs @ Fr b a kv c s # fs) = croot (Some a) fs"
proof (induction gs arbitrary: p)
  case Nil
  then show ?case by simp
next
  case (Cons g gs)
  obtain b1 b2 b3 b4 b5 where "g = Fr b1 b2 b3 b4 b5" by (cases g)
  then show ?case using Cons by simp
qed

lemma croot_ne: "fs \<noteq> [] \<Longrightarrow> croot p fs \<noteq> None"
proof (induction fs arbitrary: p)
  case Nil
  then show ?case by simp
next
  case (Cons g gs)
  obtain b1 b2 b3 b4 b5 where "g = Fr b1 b2 b3 b4 b5" by (cases g)
  then show ?case using Cons by (cases gs) auto
qed

lemma hup_append: "hup hold (fs @ gs) = hup (hup hold fs) gs"
proof (induction fs arbitrary: hold)
  case Nil
  show ?case by simp
next
  case (Cons f fs)
  obtain isL q kq cq s where f: "f = Fr isL q kq cq s" by (cases f)
  show ?case using Cons.IH unfolding f by simp
qed

lemma cavl_append: "cavl hold (fs @ gs) = (cavl hold fs \<and> cavl (hup hold fs) gs)"
  by (induction hold fs rule: cavl.induct) auto

lemma before_append: "before (fs @ gs) = before gs @ before fs"
  by (induction fs rule: before.induct) auto

lemma after_append: "after (fs @ gs) = after fs @ after gs"
  by (induction fs rule: after.induct) auto

lemma before_allL: "\<forall>g \<in> set fs. isLeftFrame g \<Longrightarrow> before fs = []"
  by (induction fs rule: before.induct) auto

lemma lfocus_plug: "lfocus t fs = (t', fs') \<Longrightarrow> plug t' fs' = plug t fs"
  by (induction t fs rule: lfocus.induct) (auto split: if_splits)

lemma lfocus_shape:
  "lfocus t fs = (t', fs') \<Longrightarrow> t \<noteq> Lf \<Longrightarrow>
   (\<exists>a kv c r. t' = Nd Lf a kv c r) \<and> rootp t' = lmost t \<and>
   (\<exists>gs. fs' = gs @ fs \<and> (\<forall>g \<in> set gs. isLeftFrame g))"
proof (induction t fs rule: lfocus.induct)
  case (1 fs)
  then show ?case by simp
next
  case (2 l a kv c r fs)
  show ?case
  proof (cases "l = Lf")
    case True
    then show ?thesis using 2(2) by auto
  next
    case False
    from 2(1)[OF False] 2(2) False obtain gs where
      a: "(\<exists>a kv c r. t' = Nd Lf a kv c r)" "rootp t' = lmost l"
      "fs' = gs @ Fr True a kv c r # fs" "\<forall>g \<in> set gs. isLeftFrame g"
      by auto
    have "fs' = (gs @ [Fr True a kv c r]) @ fs \<and> (\<forall>g \<in> set (gs @ [Fr True a kv c r]). isLeftFrame g)"
      using a(3,4) by simp
    then show ?thesis using a(1,2) False by (intro conjI exI[of _ "gs @ [Fr True a kv c r]"]) auto
  qed
qed

lemma minNode_loop_repr:
  "repr (cells h) par t \<Longrightarrow> t \<noteq> Lf \<Longrightarrow> minNode_loop h (rootp t) = Some (lmost t)"
proof (induction t arbitrary: par)
  case Lf
  then show ?case by simp
next
  case (Nd l a kv c r)
  show ?case
  proof (cases "l = Lf")
    case True
    then show ?thesis using Nd.prems by (subst minNode_loop.simps) simp
  next
    case False
    have "minNode_loop h (rootp l) = Some (lmost l)" using Nd.IH(1)[of "Some a"] Nd.prems False by simp
    then show ?thesis using Nd.prems False by (subst minNode_loop.simps) simp
  qed
qed

lemma minNode_repr: "repr (cells h) par t \<Longrightarrow> minNode h (rootp t) = Some (lmost t)"
  using minNode_loop_repr[of h par t] by (cases "t = Lf") (auto simp: minNode_def)

lemma maxNode_loop_repr:
  "repr (cells h) par t \<Longrightarrow> t \<noteq> Lf \<Longrightarrow> maxNode_loop h (rootp t) = Some (rmost t)"
proof (induction t arbitrary: par)
  case Lf
  then show ?case by simp
next
  case (Nd l a kv c r)
  show ?case
  proof (cases "r = Lf")
    case True
    then show ?thesis using Nd.prems by (subst maxNode_loop.simps) simp
  next
    case False
    have "maxNode_loop h (rootp r) = Some (rmost r)" using Nd.IH(2)[of "Some a"] Nd.prems False by simp
    then show ?thesis using Nd.prems False by (subst maxNode_loop.simps) simp
  qed
qed

lemma maxNode_repr: "repr (cells h) par t \<Longrightarrow> maxNode h (rootp t) = Some (rmost t)"
  using maxNode_loop_repr[of h par t] by (cases "t = Lf") (auto simp: maxNode_def)

lemma focus_addr: "a \<in> addrs t0 \<Longrightarrow> \<exists>t fs. plug t fs = plug t0 fs0 \<and> rootp t = Some a"
proof (induction t0 arbitrary: fs0)
  case Lf
  then show ?case by simp
next
  case (Nd l b kv c r)
  consider "a = b" | "a \<in> addrs l" | "a \<in> addrs r" using Nd.prems by auto
  then show ?case
  proof cases
    case 1
    then show ?thesis by (intro exI[of _ "Nd l b kv c r"] exI[of _ fs0]) simp
  next
    case 2
    from Nd.IH(1)[OF 2, of "Fr True b kv c r # fs0"] show ?thesis by simp
  next
    case 3
    from Nd.IH(2)[OF 3, of "Fr False b kv c l # fs0"] show ?thesis by simp
  qed
qed

lemma rebalanceUp_any:
  assumes z: "zrepr (cells h) (root m) T []" and av: "havl T" and p: "p = None \<or> (\<exists>a \<in> addrs T. p = Some a)"
    and sm: "hto T < 1073741824"
  shows "\<exists>h' m'. rebalanceUp h m p = Some (h', m') \<and>
     (\<exists>T'. zrepr (cells h') (root m') T' [] \<and> havl T' \<and> inorder T' = inorder T) \<and>
     steady (addrs T) h m h' m'"
proof (cases p)
  case None
  have "rebalanceUp h m None = Some (h, m)" by (subst rebalanceUp.simps) simp
  then show ?thesis using None z av steady_refl[of "addrs T" h m] by auto
next
  case (Some a)
  with p have "a \<in> addrs T" by auto
  from focus_addr[OF this, of "[]"] obtain t fs where tf: "plug t fs = T" "rootp t = Some a" by auto
  have ad: "addrs t \<union> caddrs fs = addrs T" using addrs_plug[of t fs] tf by simp
  have hv: "havl t" "cavl (hto t) fs" using havl_plug[of t fs] av tf by auto
  have hb: "hup (hto t) fs < 1073741824" using hup_plug[of t fs] av tf sm by simp
  have st: "small t" using hb hup_ge[of "hto t" fs] hto_nonneg[OF hv(1)] by (simp add: small_def)
  let ?P = "\<lambda>h' m'. \<exists>T'. zrepr (cells h') (root m') T' [] \<and> havl T' \<and> inorder T' = inorder T"
  have IH: "\<exists>h' m'. rebalanceUp h m (cpar fs) = Some (h', m') \<and> ?P h' m' \<and> steady (addrs T) h m h' m'"
    if "zrepr (cells h) (root m) t fs" for h m
    using rebalanceUp_zrepr[OF that hv(1) _ hv(2) hb] tf ad by fastforce
  have zt: "zrepr (cells h) (root m) t fs" using z tf by (simp add: zrepr_plug)
  have sub: "addrs t \<union> caddrs fs \<subseteq> addrs T" using ad by blast
  show ?thesis unfolding Some
    by (rule rebalanceUp_root[of t fs ?P "addrs T" h m a, OF IH zt hv(1) tf(2) sub st])
qed

lemma transplant_exec:
  assumes "cells h z = Some nz" "parent nz = cpar fs" "reprc (cells h) (Some z) fs" "z \<notin> caddrs fs"
    "root m = croot (Some z) fs" "hrepr (cells h) u" "addrs u \<inter> caddrs fs = {}"
  shows "transplant h m (Some z) (rootp u) =
         Some (h\<lparr>cells := reparent (chole (cells h) fs (rootp u)) u (cpar fs)\<rparr>, m\<lparr>root := croot (rootp u) fs\<rparr>)"
proof -
  have rl: "relink h m (cpar fs) (Some z) (rootp u) =
            Some (h\<lparr>cells := chole (cells h) fs (rootp u)\<rparr>, m\<lparr>root := croot (rootp u) fs\<rparr>)"
    using assms by (intro relink_reprc)
  have hr: "hrepr (cells (h\<lparr>cells := chole (cells h) fs (rootp u)\<rparr>)) u"
    using assms(6,7) by simp
  show ?thesis
    unfolding transplant_def using assms(1,2) rl wr_parent_repr[OF hr, of "cpar fs"]
    by (simp del: wr_simps wr_parent_repr)
qed

subsection \<open>Erasing a node\<close>

lemma delete_Node_Some:
  "cells h z = Some n \<Longrightarrow> delete_Node h (Some z) = Some (h\<lparr>cells := (cells h)(z := None), avail := avail h + 1\<rparr>)"
  by (simp add: delete_Node_def)

lemma inorder_plug_cong: "inorder u = inorder v \<Longrightarrow> inorder (plug u fs) = inorder (plug v fs)"
  by (simp add: inorder_plug)

lemma eraseNode_few:
  assumes z: "zrepr (cells h) (root m) (Nd l z kv c r) fs" and lr: "l = Lf \<or> r = Lf"
    and av: "havl (plug (Nd l z kv c r) fs)"
    and sm: "hto (plug (Nd l z kv c r) fs) < 1073741823"
  shows "\<exists>h' m' T'. eraseNode h m (Some z) = Some (h', m') \<and>
          zrepr (cells h') (root m') T' [] \<and> havl T' \<and>
          inorder T' = before fs @ inorder l @ inorder r @ after fs \<and>
          nodeCount m' = nodeCount m - 1 \<and> cmp m' = cmp m \<and>
          nxt h' = nxt h \<and> avail h' = avail h + 1 \<and>
          dom (cells h') = dom (cells h) - {z} \<and>
          (\<forall>a. a \<notin> addrs (Nd l z kv c r) \<union> caddrs fs \<longrightarrow> cells h' a = cells h a)"
proof -
  define u where "u = (if l \<noteq> Lf then l else r)"
  from z have f:
    "cells h z = Some \<lparr>val = kv, left = rootp l, right = rootp r, parent = cpar fs, height = c\<rparr>"
    "repr (cells h) (Some z) l" "repr (cells h) (Some z) r" "reprc (cells h) (Some z) fs"
    "z \<notin> addrs l" "z \<notin> addrs r" "z \<notin> caddrs fs"
    "addrs l \<inter> caddrs fs = {}" "addrs r \<inter> caddrs fs = {}" "root m = croot (Some z) fs"
    by (auto simp: zrepr_def)
  have u: "hrepr (cells h) u" "addrs u \<inter> caddrs fs = {}" "z \<notin> addrs u"
    using f unfolding u_def by auto
  define h1 where "h1 = h\<lparr>cells := reparent (chole (cells h) fs (rootp u)) u (cpar fs)\<rparr>"
  define m1 where "m1 = m\<lparr>root := croot (rootp u) fs\<rparr>"
  have tp: "transplant h m (Some z) (rootp u) = Some (h1, m1)"
    unfolding h1_def m1_def by (rule transplant_exec[OF f(1) _ f(4) f(7) f(10) u(1,2)]) simp
  have c1: "cells h1 z = cells h z" using u(3) f(7) by (simp add: h1_def)
  define h2 where "h2 = h1\<lparr>cells := (cells h1)(z := None), avail := avail h1 + 1\<rparr>"
  have dl: "delete_Node h1 (Some z) = Some h2"
    unfolding h2_def using c1 f(1) by (intro delete_Node_Some) simp
  define m2 where "m2 = m1\<lparr>nodeCount := nodeCount m1 - 1\<rparr>"
  have z2: "zrepr (cells h2) (root m2) u fs"
    using u f(4,7) by (simp add: zrepr_def h2_def h1_def m2_def m1_def)
  have hv: "havl (Nd l z kv c r)" "cavl c fs" using havl_plug[OF av] by auto
  have hu: "havl u" "\<bar>hto u - c\<bar> \<le> 1"
    using hv(1) lr hto_nonneg[of l] hto_nonneg[of r] unfolding u_def by auto
  have hb: "hup c fs < 1073741824" using hup_plug[OF av] sm by simp
  obtain h' m' T' where r: "rebalanceUp h2 m2 (cpar fs) = Some (h', m')"
    "zrepr (cells h') (root m') T' []" "havl T'" "inorder T' = inorder (plug u fs)"
    "steady (addrs u \<union> caddrs fs) h2 m2 h' m'"
    using rebalanceUp_zrepr[OF z2 hu hv(2) hb] by auto
  have ch: "(if rootp l \<noteq> None then rd h (Some z) left else rd h (Some z) right) = Some (rootp u)"
    using f(1) unfolding u_def by simp
  have res: "eraseNode h m (Some z) = Some (h', m')"
    unfolding eraseNode_def using f(1) lr ch tp dl r(1)
    by (simp add: m2_def del: rd_simps) (simp add: m2_def)
  have io: "inorder u = inorder l @ inorder r" using lr unfolding u_def by auto
  have d2: "dom (cells h2) = dom (cells h) - {z}"
    using u(1,2) f(4) by (simp add: h2_def h1_def)
  have o2: "cells h2 a = cells h a" if "a \<notin> addrs (Nd l z kv c r) \<union> caddrs fs" for a
    using that lr by (auto simp: h2_def h1_def u_def)
  have sub: "addrs u \<union> caddrs fs \<subseteq> addrs (Nd l z kv c r) \<union> caddrs fs"
    unfolding u_def by auto
  have o3: "cells h' a = cells h a" if "a \<notin> addrs (Nd l z kv c r) \<union> caddrs fs" for a
    using that o2[OF that] r(5) sub unfolding steady_def by auto
  show ?thesis
    using res r(2,3,4) io d2 o3 r(5)
    by (auto simp: inorder_plug steady_def m2_def m1_def h2_def h1_def)
qed

lemma cavl_frame_indep: "cavl hold (Fr b a kv c s # fs) = cavl hold (Fr b' a' kv' c' s # fs)"
  by simp

lemma eraseNode_two:
  assumes z: "zrepr (cells h) (root m) (Nd l z kv c r) fs" and lne: "l \<noteq> Lf" and rne: "r \<noteq> Lf"
    and av: "havl (plug (Nd l z kv c r) fs)"
    and sm: "hto (plug (Nd l z kv c r) fs) < 1073741823"
  shows "\<exists>h' m' T'. eraseNode h m (Some z) = Some (h', m') \<and>
          zrepr (cells h') (root m') T' [] \<and> havl T' \<and>
          inorder T' = before fs @ inorder l @ inorder r @ after fs \<and>
          nodeCount m' = nodeCount m - 1 \<and> cmp m' = cmp m \<and>
          nxt h' = nxt h \<and> avail h' = avail h + 1 \<and>
          dom (cells h') = dom (cells h) - {z} \<and>
          (\<forall>a. a \<notin> addrs (Nd l z kv c r) \<union> caddrs fs \<longrightarrow> cells h' a = cells h a)"
proof -
  let ?S = "addrs (Nd l z kv c r) \<union> caddrs fs"
  obtain fo rfs where lf: "lfocus r [] = (fo, rfs)" by (cases "lfocus r []")
  from lfocus_shape[OF lf rne] obtain s kvs cs sr where
    fo: "fo = Nd Lf s kvs cs sr" and lm: "lmost r = Some s" and allL: "\<forall>g \<in> set rfs. isLeftFrame g"
    by auto
  have pr: "plug (Nd Lf s kvs cs sr) rfs = r" using lfocus_plug[OF lf] fo by simp
  define r' where "r' = plug sr rfs"
  define F where "F = Fr False z kv c l"
  define F' where "F' = Fr False s kvs cs l"
  define su where "su = Nd Lf s kvs cs r'"
  have zs: "zrepr (cells h) (root m) (Nd Lf s kvs cs sr) (rfs @ F # fs)"
    using zrepr_downR[OF z] pr unfolding F_def zrepr_append by simp
  from z have f:
    "cells h z = Some \<lparr>val = kv, left = rootp l, right = rootp r, parent = cpar fs, height = c\<rparr>"
    "repr (cells h) (Some z) l" "repr (cells h) (Some z) r" "reprc (cells h) (Some z) fs"
    "z \<notin> addrs l" "z \<notin> addrs r" "z \<notin> caddrs fs"
    "addrs l \<inter> caddrs fs = {}" "addrs r \<inter> caddrs fs = {}" "addrs l \<inter> addrs r = {}"
    "root m = croot (Some z) fs"
    by (auto simp: zrepr_def)
  have adr: "addrs r = insert s (addrs sr \<union> caddrs rfs)"
    using addrs_plug[of "Nd Lf s kvs cs sr" rfs] pr by simp
  have adr': "addrs r' = addrs sr \<union> caddrs rfs" unfolding r'_def by (simp add: addrs_plug)
  from zs have g:
    "cells h s = Some \<lparr>val = kvs, left = None, right = rootp sr, parent = cpar (rfs @ F # fs), height = cs\<rparr>"
    "repr (cells h) (Some s) sr" "s \<notin> addrs sr" "s \<notin> caddrs rfs"
    "addrs sr \<inter> caddrs rfs = {}"
    by (auto simp: zrepr_def caddrs_append)
  have sz: "s \<noteq> z" "s \<notin> addrs l" "s \<notin> caddrs fs" "s \<notin> addrs r'"
    using f(5,6,9,10) g(3,4) adr adr' by auto
  have dj: "addrs r' \<inter> caddrs fs = {}" "addrs l \<inter> addrs r' = {}" "z \<notin> addrs r'"
    using f(6,9,10) adr adr' by auto
  have hv: "havl l" "havl r" "\<bar>hto l - hto r\<bar> \<le> 1" "c = max (hto l) (hto r) + 1" "cavl c fs"
    using havl_plug[OF av] by auto
  have hfo: "havl (Nd Lf s kvs cs sr)" "cavl cs (rfs @ F # fs)"
    using havl_plug[of "Nd Lf s kvs cs sr" "rfs @ F # fs"] av pr by (auto simp: plug_append F_def)
  have hsr: "havl sr" "\<bar>hto sr - cs\<bar> \<le> 1" using hfo(1) hto_nonneg[of sr] by auto
  have cv: "cavl cs (rfs @ F' # fs)"
    using hfo(2) unfolding cavl_append F_def F'_def by simp
  have hb: "hup cs (rfs @ F' # fs) < 1073741823"
    using hup_plug[of "Nd Lf s kvs cs sr" "rfs @ F # fs"] av pr sm
    by (simp add: plug_append hup_append F_def F'_def)
  have ior: "inorder r = (s, kvs) # inorder sr @ after rfs"
    using pr[symmetric] before_allL[OF allL] by (simp add: inorder_plug)

  text \<open>The second half of the function, from a state in which the successor is detached.\<close>
  define H4 where "H4 = (\<lambda>hA :: ('a, 'b) heap. hA\<lparr>cells := reparent (chole (cells hA) fs (Some s)) su (cpar fs)\<rparr>)"
  define H5 where "H5 = (\<lambda>hA. (H4 hA)\<lparr>cells := (cells (H4 hA))(s \<mapsto>
      \<lparr>val = kvs, left = rootp l, right = rootp r', parent = cpar fs, height = cs\<rparr>)\<rparr>)"
  define H6 where "H6 = (\<lambda>hA. (H5 hA)\<lparr>cells := reparent (cells (H5 hA)) l (Some s)\<rparr>)"
  define H7 where "H7 = (\<lambda>hA. (H6 hA)\<lparr>cells := (cells (H6 hA))(z := None), avail := avail (H6 hA) + 1\<rparr>)"
  define M4 where "M4 = (\<lambda>mA :: 'a mapobj. mA\<lparr>root := croot (Some s) fs\<rparr>)"
  define stA where "stA = (\<lambda>(hA :: ('a, 'b) heap) (mA :: 'a mapobj).
      (\<exists>nz. cells hA z = Some nz \<and> parent nz = cpar fs \<and> left nz = rootp l) \<and>
      hrepr (cells hA) su \<and> repr (cells hA) (Some z) l \<and> reprc (cells hA) (Some z) fs \<and>
      root mA = croot (Some z) fs)"
  have adsu: "addrs su \<inter> caddrs fs = {}" "z \<notin> addrs su" "addrs su \<inter> addrs l = {}" "rootp su = Some s"
    "addrs su = insert s (addrs r')"
    using dj sz unfolding su_def by auto
  have su_cell: "reparent cs0 su q s = Some \<lparr>val = kvs, left = None, right = rootp r', parent = q, height = cs\<rparr>" for cs0 q
    unfolding su_def by simp
  have t1: "transplant hA mA (Some z) (Some s) = Some (H4 hA, M4 mA)" if "stA hA mA" for hA mA
  proof -
    from that obtain nz where A: "cells hA z = Some nz" "parent nz = cpar fs"
      "reprc (cells hA) (Some z) fs" "root mA = croot (Some z) fs" "hrepr (cells hA) su"
      unfolding stA_def by auto
    show ?thesis
      using transplant_exec[OF A(1,2,3) f(7) A(4,5) adsu(1)] unfolding adsu(4) H4_def M4_def .
  qed
  have c4: "cells (H4 hA) z = cells hA z" for hA
    using adsu(2) f(7) by (simp add: H4_def)
  have t2: "rd (H4 hA) (Some z) left = Some (rootp l)" if "stA hA mA" for hA mA
    using that c4[of hA] unfolding stA_def by auto
  have t3: "wr (H4 hA) (Some s) (\<lambda>n. n\<lparr>left := rootp l\<rparr>) = Some (H5 hA)" for hA
    by (simp add: H5_def H4_def su_cell)
  have t4: "rd (H5 hA) (Some s) left = Some (rootp l)" for hA
    by (simp add: H5_def)
  have r5: "repr (cells (H5 hA)) (Some z) l" if "stA hA mA" for hA mA
    using that sz(2) adsu(3) f(8) unfolding stA_def by (simp add: H5_def H4_def Int_commute)
  have t5: "wr (H5 hA) (rootp l) (\<lambda>n. n\<lparr>parent := Some s\<rparr>) = Some (H6 hA)" if "stA hA mA" for hA mA
    using wr_parent_repr[OF repr_hrepr[OF r5[OF that]], of "Some s"] lne unfolding H6_def by simp
  have c6: "cells (H6 hA) z = cells hA z" for hA
    using adsu(2) f(5,7) sz(1) by (simp add: H6_def H5_def H4_def)
  have t6: "delete_Node (H6 hA) (Some z) = Some (H7 hA)" if "stA hA mA" for hA mA
    using that c6[of hA] unfolding stA_def H7_def by (auto simp: delete_Node_def)
  have t7: "zrepr (cells (H7 hA)) (root (M4 mA)) (Nd l s kvs cs r') fs" if "stA hA mA" for hA mA
  proof -
    from that have A: "hrepr (cells hA) su" "repr (cells hA) (Some z) l" "reprc (cells hA) (Some z) fs"
      unfolding stA_def by auto
    have a: "repr (cells (H4 hA)) (cpar fs) su" using A(1) adsu(1) by (simp add: H4_def)
    then have b: "repr (cells (H4 hA)) (Some s) r'" unfolding su_def by simp
    have "repr (cells (H7 hA)) (Some s) r'"
      using b dj sz(4) by (simp add: H7_def H6_def H5_def Int_commute)
    moreover have "repr (cells (H7 hA)) (Some s) l"
      using r5[OF that] f(5) by (simp add: H7_def H6_def)
    moreover have "cells (H7 hA) s = Some \<lparr>val = kvs, left = rootp l, right = rootp r', parent = cpar fs, height = cs\<rparr>"
      using sz(1,2) by (simp add: H7_def H6_def H5_def)
    moreover have "reprc (cells (H7 hA)) (Some s) fs"
      using A(3) f(7,8) sz(3) adsu(1) by (simp add: H7_def H6_def H5_def H4_def Int_commute)
    ultimately show ?thesis
      using sz dj f(8) by (auto simp: zrepr_def M4_def)
  qed
  have t8: "nxt (H7 hA) = nxt hA \<and> avail (H7 hA) = avail hA + 1 \<and>
            nodeCount (M4 mA) = nodeCount mA \<and> cmp (M4 mA) = cmp mA \<and>
            (\<forall>a. a \<notin> ?S \<longrightarrow> cells (H7 hA) a = cells hA a)" for hA mA
    using adr adr' adsu(5) by (auto simp: H7_def H6_def H5_def H4_def M4_def)
  have t9: "dom (cells (H7 hA)) = dom (cells hA) - {z}" if "stA hA mA" for hA mA
  proof -
    from that have A: "hrepr (cells hA) su" "reprc (cells hA) (Some z) fs" "repr (cells hA) (Some z) l"
      unfolding stA_def by auto
    have "dom (cells (H4 hA)) = dom (cells hA)" using A(1,2) adsu(1) by (simp add: H4_def)
    moreover have "s \<in> dom (cells (H4 hA))" by (simp add: H4_def su_cell domI)
    ultimately have "dom (cells (H5 hA)) = dom (cells hA)" by (auto simp: H5_def)
    moreover have "dom (cells (H6 hA)) = dom (cells (H5 hA))"
      using r5[OF that] by (simp add: H6_def)
    ultimately show ?thesis by (simp add: H7_def)
  qed
  text \<open>From the state after the second half to the result.\<close>
  have fin: "\<exists>h' m' T'. (rebalanceUp (H7 hA) ((M4 mA)\<lparr>nodeCount := nodeCount (M4 mA) - 1\<rparr>) (cpar (rfs @ F' # fs))
              \<bind> (\<lambda>(h, m). rebalanceUp h m (cpar fs))) = Some (h', m') \<and>
          zrepr (cells h') (root m') T' [] \<and> havl T' \<and>
          inorder T' = before fs @ inorder l @ inorder r @ after fs \<and>
          nodeCount m' = nodeCount mA - 1 \<and> cmp m' = cmp mA \<and>
          nxt h' = nxt hA \<and> avail h' = avail hA + 1 \<and>
          dom (cells h') = dom (cells hA) - {z} \<and>
          (\<forall>a. a \<notin> ?S \<longrightarrow> cells h' a = cells hA a)"
    if st: "stA hA mA" for hA mA
  proof -
    define m5 where "m5 = (M4 mA)\<lparr>nodeCount := nodeCount (M4 mA) - 1\<rparr>"
    have z7: "zrepr (cells (H7 hA)) (root m5) sr (rfs @ F' # fs)"
      using zrepr_downR[OF t7[OF st]] unfolding zrepr_append r'_def F'_def m5_def by simp
    have hb': "hup cs (rfs @ F' # fs) < 1073741824" using hb by simp
    obtain h8 m8 T8 where 8: "rebalanceUp (H7 hA) m5 (cpar (rfs @ F' # fs)) = Some (h8, m8)"
      "zrepr (cells h8) (root m8) T8 []" "havl T8" "inorder T8 = inorder (plug sr (rfs @ F' # fs))"
      "steady (addrs sr \<union> caddrs (rfs @ F' # fs)) (H7 hA) m5 h8 m8"
      "hto T8 \<le> hup cs (rfs @ F' # fs) + 1"
      using rebalanceUp_zrepr[OF z7 hsr cv hb'] by auto
    have s8: "hto T8 < 1073741824" using 8(6) hb by linarith
    have io8: "inorder T8 = before fs @ inorder l @ inorder r @ after fs"
      unfolding 8(4) ior using before_allL[OF allL]
      by (simp add: inorder_plug before_append after_append F'_def)
    have ad8: "addrs T8 = addrs sr \<union> caddrs (rfs @ F' # fs)"
      unfolding addrs_inorder[of T8] 8(4) addrs_inorder[symmetric] by (simp add: addrs_plug)
    have S8: "addrs T8 \<subseteq> ?S" unfolding ad8 using adr by (auto simp: caddrs_append F'_def)
    have p: "cpar fs = None \<or> (\<exists>a \<in> addrs T8. cpar fs = Some a)"
      unfolding ad8 by (cases fs rule: cpar.cases) (auto simp: caddrs_append F'_def)
    obtain h9 m9 T9 where 9: "rebalanceUp h8 m8 (cpar fs) = Some (h9, m9)"
      "zrepr (cells h9) (root m9) T9 []" "havl T9" "inorder T9 = inorder T8"
      "steady (addrs T8) h8 m8 h9 m9"
      using rebalanceUp_any[OF 8(2,3) p s8] by auto
    have sd: "steady ?S (H7 hA) m5 h9 m9"
      using 8(5)[folded ad8] 9(5) S8 S8 by (rule steady_trans)
    show ?thesis
      using 8(1) 9(1,2,3,4) io8 sd t8[of hA mA] t9[OF st]
      by (auto simp: m5_def[symmetric] steady_def) (auto simp: m5_def)
  qed
  have zl: "rd h (Some z) left = Some (rootp l)" "rd h (Some z) right = Some (rootp r)"
    using f(1) by auto
  have mn: "minNode h (rootp r) = Some (Some s)" using minNode_repr[OF f(3)] lm by simp
  show ?thesis
  proof (cases "rfs = []")
    case True
    have st: "stA h m"
      using f(1,2,4,11) g(1,2,3) True unfolding stA_def su_def r'_def F_def hrepr_def by auto
    have sp: "rd h (Some s) parent = Some (Some z)" using g(1) True by (simp add: F_def)
    have cp: "cpar (rfs @ F' # fs) = Some s" using True by (simp add: F'_def)
    have pz: "rd h (Some z) parent = Some (cpar fs)" using f(1) by simp
    have res: "eraseNode h m (Some z) =
        (rebalanceUp (H7 h) ((M4 m)\<lparr>nodeCount := nodeCount (M4 m) - 1\<rparr>) (cpar (rfs @ F' # fs))
              \<bind> (\<lambda>(h, m). rebalanceUp h m (cpar fs)))"
      unfolding eraseNode_def using zl mn sp lne rne pz t1[OF st] t2[OF st] t3[of h] t4[of h] t5[OF st] t6[OF st] cp
      by (simp del: rd_simps wr_simps)
    show ?thesis unfolding res using fin[OF st] by blast
  next
    case False
    define G where "G = rfs @ F # fs"
    obtain b0 q kq cq sq rfs' where rfs: "rfs = Fr b0 q kq cq sq # rfs'"
      using False by (cases rfs rule: cpar.cases) auto
    have qz: "q \<noteq> z" using f(6) adr unfolding rfs by auto
    have G1: "cpar G = cpar rfs" "cpar G \<noteq> Some z" "cpar G \<noteq> None"
      using qz unfolding G_def rfs by simp_all
    have G4: "croot p G = croot (Some z) fs" for p
      unfolding G_def F_def by (rule croot_append_frame)
    have G5: "caddrs G = caddrs rfs \<union> insert z (addrs l \<union> caddrs fs)"
      unfolding G_def F_def by (simp add: caddrs_append)
    note G = G1 G4 G5
    have "rootp r' = croot (rootp sr) rfs" "rootp r = croot (Some s) rfs"
      using pr[symmetric] unfolding r'_def by (simp_all add: rootp_plug)
    then have r'ne: "r' \<noteq> Lf" "rootp r' = rootp r"
      using croot_ne[OF False, of "rootp sr"] croot_Cons[OF False, of "rootp sr" "Some s"] by auto
    from zs have k: "reprc (cells h) (Some s) G" "s \<notin> caddrs G" "root m = croot (Some s) G"
      "addrs sr \<inter> caddrs G = {}"
      by (auto simp: zrepr_def G_def)
    define h1 where "h1 = h\<lparr>cells := reparent (chole (cells h) G (rootp sr)) sr (cpar G)\<rparr>"
    define m1 where "m1 = m\<lparr>root := croot (rootp sr) G\<rparr>"
    have sp: "rd h (Some s) parent = Some (cpar G)" "rd h (Some s) right = Some (rootp sr)"
      using g(1) by (simp_all add: G_def)
    have tp: "transplant h m (Some s) (rootp sr) = Some (h1, m1)"
      unfolding h1_def m1_def
      by (rule transplant_exec[OF g(1) _ k(1,2,3) repr_hrepr[OF g(2)] k(4)]) (simp add: G_def)
    have z1: "zrepr (cells h1) (root m1) r' (F # fs)"
    proof -
      have "zrepr (cells h1) (root m1) sr G"
        using k g(2) by (simp add: zrepr_def h1_def m1_def)
      then show ?thesis unfolding G_def zrepr_append r'_def .
    qed
    from zrepr_upR[OF z1[unfolded F_def]] have f1:
      "cells h1 z = Some \<lparr>val = kv, left = rootp l, right = rootp r', parent = cpar fs, height = c\<rparr>"
      "repr (cells h1) (Some z) l" "repr (cells h1) (Some z) r'" "reprc (cells h1) (Some z) fs"
      "root m1 = croot (Some z) fs"
      by (auto simp: zrepr_def)
    have s1: "cells h1 s = cells h s" using g(3) k(2) by (simp add: h1_def)
    define h2 where "h2 = h1\<lparr>cells := (cells h1)(s \<mapsto>
        \<lparr>val = kvs, left = None, right = rootp r', parent = cpar G, height = cs\<rparr>)\<rparr>"
    define h3 where "h3 = h2\<lparr>cells := reparent (cells h2) r' (Some s)\<rparr>"
    have zr: "rd h1 (Some z) right = Some (rootp r')" using f1(1) by simp
    have w2: "wr h1 (Some s) (\<lambda>n. n\<lparr>right := rootp r'\<rparr>) = Some h2"
      using s1 g(1) by (simp add: h2_def G_def)
    have sr2: "rd h2 (Some s) right = Some (rootp r')" by (simp add: h2_def)
    have hr2: "hrepr (cells h2) r'" using f1(3) sz(4) by (simp add: h2_def)
    have w3: "wr h2 (rootp r') (\<lambda>n. n\<lparr>parent := Some s\<rparr>) = Some h3"
      using wr_parent_repr[OF hr2, of "Some s"] r'ne unfolding h3_def by simp
    have st: "stA h3 m1"
      unfolding stA_def su_def
      using f1 sz dj hr2 by (auto simp: h3_def h2_def hrepr_def Int_commute)
    have cp: "cpar (rfs @ F' # fs) = cpar G" using False by (simp add: G(1) cpar_append)
    have pz: "rd h3 (Some z) parent = Some (cpar fs)"
      using f1(1) sz(1) dj(3) by (simp add: h3_def h2_def)
    have res: "eraseNode h m (Some z) =
        (rebalanceUp (H7 h3) ((M4 m1)\<lparr>nodeCount := nodeCount (M4 m1) - 1\<rparr>) (cpar (rfs @ F' # fs))
              \<bind> (\<lambda>(h, m). rebalanceUp h m (cpar fs)))"
      unfolding eraseNode_def
      using zl mn sp lne rne G(2) tp zr w2 sr2 w3 r'ne(1) pz
        t1[OF st] t2[OF st] t3[of h3] t4[of h3] t5[OF st] t6[OF st] cp
      by (simp del: rd_simps wr_simps)
    have e1: "nxt h3 = nxt h" "avail h3 = avail h" "nodeCount m1 = nodeCount m" "cmp m1 = cmp m"
      by (simp_all add: h3_def h2_def h1_def m1_def)
    have e2: "dom (cells h3) = dom (cells h)"
    proof -
      have "dom (cells h1) = dom (cells h)"
        using k(1,4) g(2) by (simp add: h1_def)
      moreover have "s \<in> dom (cells h)" using g(1) by auto
      ultimately have "dom (cells h2) = dom (cells h)" by (auto simp: h2_def)
      then show ?thesis using hr2 by (simp add: h3_def)
    qed
    have e3: "cells h3 a = cells h a" if "a \<notin> ?S" for a
      using that adr adr' G(5) by (auto simp: h3_def h2_def h1_def)
    show ?thesis unfolding res using fin[OF st] e1 e2 e3 by auto
  qed
qed

lemma eraseNode_zrepr:
  assumes z: "zrepr (cells h) (root m) (Nd l z kv c r) fs" and av: "havl (plug (Nd l z kv c r) fs)"
    and sm: "hto (plug (Nd l z kv c r) fs) < 1073741823"
  shows "\<exists>h' m' T'. eraseNode h m (Some z) = Some (h', m') \<and>
          zrepr (cells h') (root m') T' [] \<and> havl T' \<and>
          inorder T' = before fs @ inorder l @ inorder r @ after fs \<and>
          nodeCount m' = nodeCount m - 1 \<and> cmp m' = cmp m \<and>
          nxt h' = nxt h \<and> avail h' = avail h + 1 \<and>
          dom (cells h') = dom (cells h) - {z} \<and>
          (\<forall>a. a \<notin> addrs (Nd l z kv c r) \<union> caddrs fs \<longrightarrow> cells h' a = cells h a)"
proof (cases "l = Lf \<or> r = Lf")
  case True
  then show ?thesis by (rule eraseNode_few[OF z _ av sm])
next
  case False
  then show ?thesis using eraseNode_two[OF z _ _ av sm] by simp
qed

subsection \<open>Destroying and cloning a subtree\<close>

lemma tsize_inorder: "tsize t = length (inorder t)"
  by (induction t) auto

lemma destroySubtree_repr:
  "repr (cells h) par t \<Longrightarrow>
   destroySubtree h (rootp t) = Some (h\<lparr>cells := cells h |` (- addrs t), avail := avail h + tsize t\<rparr>)"
proof (induction t arbitrary: h par)
  case Lf
  show ?case by (subst destroySubtree.simps) (simp add: restrict_map_def)
next
  case (Nd l a kv c r)
  from Nd.prems have f:
    "cells h a = Some \<lparr>val = kv, left = rootp l, right = rootp r, parent = par, height = c\<rparr>"
    "repr (cells h) (Some a) l" "repr (cells h) (Some a) r"
    "a \<notin> addrs l" "a \<notin> addrs r" "addrs l \<inter> addrs r = {}"
    by auto
  define h1 where "h1 = h\<lparr>cells := cells h |` (- addrs l), avail := avail h + tsize l\<rparr>"
  define h2 where "h2 = h1\<lparr>cells := cells h1 |` (- addrs r), avail := avail h1 + tsize r\<rparr>"
  have d1: "destroySubtree h (rootp l) = Some h1" unfolding h1_def by (rule Nd.IH(1)[OF f(2)])
  have c1: "cells h1 a = cells h a" using f(4) by (simp add: h1_def)
  have r1: "repr (cells h1) (Some a) r"
    using f(3,6) by (subst repr_cong[of r _ "cells h"]) (auto simp: h1_def restrict_map_def)
  have d2: "destroySubtree h1 (rootp r) = Some h2" unfolding h2_def by (rule Nd.IH(2)[OF r1])
  have c2: "cells h2 a = cells h a" using f(4,5) by (simp add: h2_def h1_def)
  have d3: "delete_Node h2 (Some a) = Some (h2\<lparr>cells := (cells h2)(a := None), avail := avail h2 + 1\<rparr>)"
    using c2 f(1) by (intro delete_Node_Some) simp
  have eq: "h2\<lparr>cells := (cells h2)(a := None), avail := avail h2 + 1\<rparr> =
            h\<lparr>cells := cells h |` (- addrs (Nd l a kv c r)), avail := avail h + tsize (Nd l a kv c r)\<rparr>"
    by (auto simp: h2_def h1_def restrict_map_def fun_eq_iff)
  have d3': "delete_Node h2 (Some a) =
      Some (h\<lparr>cells := cells h |` (- addrs (Nd l a kv c r)), avail := avail h + tsize (Nd l a kv c r)\<rparr>)"
    using d3 unfolding eq .
  have rdl: "rd h (Some a) left = Some (rootp l)" "rd h1 (Some a) right = Some (rootp r)"
    using f(1) c1 by simp_all
  show ?case
    by (subst destroySubtree.simps) (simp add: rdl d1 d2 d3' del: rd_simps addrs.simps tsize.simps)
qed

lemma hto_clone: "havl t \<Longrightarrow> hto (clone_t n t) = hto t"
  by (induction t arbitrary: n) (auto simp: node_t_def)

lemma havl_clone: "havl t \<Longrightarrow> havl (clone_t n t)"
  by (induction t arbitrary: n) (auto simp: node_t_def hto_clone)

lemma entries_clone: "map snd (inorder (clone_t n t)) = map snd (inorder t)"
  by (induction t arbitrary: n) (auto simp: node_t_def)

lemma addrs_clone: "addrs (clone_t n t) = {n ..< n + tsize t}"
  by (induction t arbitrary: n) (auto simp: node_t_def)

lemma rootp_clone: "(clone_t n t = Lf) = (t = Lf)"
  by (cases t) (auto simp: node_t_def)

lemma heap_ok_finite: "heap_ok h \<Longrightarrow> finite (dom (cells h))"
proof -
  assume "heap_ok h"
  then have "dom (cells h) \<subseteq> {..< nxt h}" by (auto simp: heap_ok_def)
  then show ?thesis by (rule finite_subset) simp
qed

lemma room_upd: "a \<in> dom (cells h) \<Longrightarrow> room (h\<lparr>cells := (cells h)(a \<mapsto> x)\<rparr>) = room h"
  by (simp add: room_def insert_absorb)

lemma room_new:
  "heap_ok h \<Longrightarrow> avail h \<noteq> 0 \<Longrightarrow>
   room (h\<lparr>cells := (cells h)(nxt h \<mapsto> x), nxt := k, avail := avail h - 1\<rparr>) = room h"
proof -
  assume ok: "heap_ok h" and av: "avail h \<noteq> 0"
  have "nxt h \<notin> dom (cells h)" using ok by (auto simp: heap_ok_def)
  then show ?thesis using heap_ok_finite[OF ok] av by (simp add: room_def)
qed

lemma room_delete:
  "heap_ok h \<Longrightarrow> a \<in> dom (cells h) \<Longrightarrow>
   room (h\<lparr>cells := (cells h)(a := None), avail := avail h + 1\<rparr>) = room h"
proof -
  assume ok: "heap_ok h" and a: "a \<in> dom (cells h)"
  have "card (dom (cells h) - {a}) + 1 = card (dom (cells h))"
    using card_Suc_Diff1[OF heap_ok_finite[OF ok] a] by simp
  then show ?thesis by (simp add: room_def)
qed

lemma hgt_nonneg: "0 \<le> hgt t"
  by (induction t) auto

lemma hto_clone_hgt: "hto (clone_t n t) = hgt t"
  by (induction t arbitrary: n) (auto simp: node_t_def)

lemma cloneSubtree_repr:
  "repr (cells h) par t \<Longrightarrow> heap_ok h \<Longrightarrow> hgt t < 2147483648 \<Longrightarrow>
   \<exists>h' res. cloneSubtree h (rootp t) q = Some (h', res) \<and> heap_ok h' \<and> nxt h \<le> nxt h' \<and>
     (\<forall>a. a < nxt h \<longrightarrow> cells h' a = cells h a) \<and>
     (if tsize t \<le> avail h
      then res = Returns (rootp (clone_t (nxt h) t)) \<and> repr (cells h') q (clone_t (nxt h) t) \<and>
           nxt h' = nxt h + tsize t \<and> avail h' = avail h - tsize t
      else res = Throws bad_alloc) \<and>
     room h' = room h"
proof (induction t arbitrary: h par q)
  case Lf
  show ?case using Lf.prems by (subst cloneSubtree.simps) simp
next
  case (Nd l a kv c r)
  from Nd.prems have f:
    "cells h a = Some \<lparr>val = kv, left = rootp l, right = rootp r, parent = par, height = c\<rparr>"
    "repr (cells h) (Some a) l" "repr (cells h) (Some a) r"
    by auto
  have dm: "x \<in> dom (cells h) \<Longrightarrow> x < nxt h" for x
    using Nd.prems(2) unfolding heap_ok_def by blast
  have hg: "hgt l < 2147483647" "hgt r < 2147483647" using Nd.prems(3) by auto
  have lt: "a < nxt h" "\<And>x. x \<in> addrs l \<Longrightarrow> x < nxt h" "\<And>x. x \<in> addrs r \<Longrightarrow> x < nxt h"
    using f(1) repr_dom[OF f(2)] repr_dom[OF f(3)] by (blast intro: dm domI)+
  show ?case
  proof (cases "avail h = 0")
    case True
    then show ?thesis using f(1) Nd.prems(2)
      by (subst cloneSubtree.simps) (simp add: new_Node_def)
  next
    case False
    define n where "n = nxt h"
    define h1 where "h1 = h\<lparr>cells := (cells h)(n \<mapsto> \<lparr>val = kv, left = None, right = None, parent = q, height = 1\<rparr>),
              nxt := nxt h + 1, avail := avail h - 1\<rparr>"
    have nn: "new_Node h kv q = (h1, Returns (Some n))"
      using False by (simp add: new_Node_def h1_def n_def)
    have ok1: "heap_ok h1" using Nd.prems(2) unfolding heap_ok_def h1_def n_def by (auto split: if_splits)
    have rm1: "room h1 = room h" unfolding h1_def n_def using Nd.prems(2) False by (rule room_new)
    have a1: "cells h1 x = cells h x" if "x < nxt h" for x using that by (simp add: h1_def n_def)
    have r1: "repr (cells h1) (Some a) l" "repr (cells h1) (Some a) r"
      using f(2,3) lt(2,3) a1 by (simp_all add: repr_cong[of _ "cells h1" "cells h"])
    obtain h2 res2 where 2: "cloneSubtree h1 (rootp l) (Some n) = Some (h2, res2)" "heap_ok h2"
      "nxt h1 \<le> nxt h2" "\<forall>x. x < nxt h1 \<longrightarrow> cells h2 x = cells h1 x"
      "if tsize l \<le> avail h1
       then res2 = Returns (rootp (clone_t (nxt h1) l)) \<and> repr (cells h2) (Some n) (clone_t (nxt h1) l) \<and>
            nxt h2 = nxt h1 + tsize l \<and> avail h2 = avail h1 - tsize l
       else res2 = Throws bad_alloc"
      "room h2 = room h1"
      using Nd.IH(1)[OF r1(1) ok1, of "Some n"] hg(1) by (elim meta_impE exE conjE) auto
    have n1: "nxt h1 = n + 1" "avail h1 = avail h - 1" by (simp_all add: h1_def n_def)
    have rdv: "rd h (Some a) val = Some kv" "rd h1 (Some a) left = Some (rootp l)"
      using f(1) a1[OF lt(1)] by simp_all
    show ?thesis
    proof (cases "tsize l \<le> avail h1")
      case F1: False
      then have "res2 = Throws bad_alloc" using 2(5) by simp
      moreover have "\<not> tsize (Nd l a kv c r) \<le> avail h" using F1 n1 by simp
      moreover have "\<forall>x. x < nxt h \<longrightarrow> cells h2 x = cells h x" using 2(4) a1 n1 n_def by auto
      ultimately show ?thesis using rdv nn 2(1,2,3) n1 n_def 2(6) rm1
        by (subst cloneSubtree.simps) (simp del: rd_simps)
    next
      case T1: True
      define l' where "l' = clone_t (n + 1) l"
      from 2(5) T1 have c2: "res2 = Returns (rootp l')" "repr (cells h2) (Some n) l'"
        "nxt h2 = n + 1 + tsize l" "avail h2 = avail h - 1 - tsize l"
        by (simp_all add: n1 l'_def)
      have c2n: "cells h2 n = Some \<lparr>val = kv, left = None, right = None, parent = q, height = 1\<rparr>"
        using 2(4) n1 by (simp add: h1_def)
      define h3 where "h3 = h2\<lparr>cells := (cells h2)(n \<mapsto> \<lparr>val = kv, left = rootp l', right = None, parent = q, height = 1\<rparr>)\<rparr>"
      have w3: "wr h2 (Some n) (\<lambda>x. x\<lparr>left := rootp l'\<rparr>) = Some h3" using c2n by (simp add: h3_def)
      have a3: "cells h3 x = cells h x" if "x < nxt h" for x
        using that 2(4) a1 n1 by (simp add: h3_def n_def)
      have ok3: "heap_ok h3" using 2(2) c2n unfolding heap_ok_def h3_def by (auto split: if_splits)
      have rm3: "room h3 = room h" unfolding h3_def using room_upd[of n h2] c2n 2(6) rm1 by (simp add: domI)
      have r3: "repr (cells h3) (Some a) r"
        using f(3) lt(3) a3 by (simp add: repr_cong[of _ "cells h3" "cells h"])
      have n3: "nxt h3 = n + 1 + tsize l" "avail h3 = avail h - 1 - tsize l"
        using c2(3,4) by (simp_all add: h3_def)
      obtain h4 res4 where 4: "cloneSubtree h3 (rootp r) (Some n) = Some (h4, res4)" "heap_ok h4"
        "nxt h3 \<le> nxt h4" "\<forall>x. x < nxt h3 \<longrightarrow> cells h4 x = cells h3 x"
        "if tsize r \<le> avail h3
         then res4 = Returns (rootp (clone_t (nxt h3) r)) \<and> repr (cells h4) (Some n) (clone_t (nxt h3) r) \<and>
              nxt h4 = nxt h3 + tsize r \<and> avail h4 = avail h3 - tsize r
         else res4 = Throws bad_alloc"
        "room h4 = room h3"
        using Nd.IH(2)[OF r3 ok3, of "Some n"] hg(2) by (elim meta_impE exE conjE) auto
      have rd3: "rd h3 (Some a) right = Some (rootp r)" using f(1) a3[OF lt(1)] by simp
      have a4: "\<forall>x. x < nxt h \<longrightarrow> cells h4 x = cells h x" using 4(4) a3 n3 n_def by auto
      show ?thesis
      proof (cases "tsize r \<le> avail h3")
        case F2: False
        then have "res4 = Throws bad_alloc" using 4(5) by simp
        moreover have "\<not> tsize (Nd l a kv c r) \<le> avail h" using F2 n3 by simp
        moreover have "nxt h \<le> nxt h4" using 4(3) n3 n_def by simp
        ultimately show ?thesis using rdv nn 2(1) c2(1) w3 rd3 4(1,2) a4 4(6) rm3
          by (subst cloneSubtree.simps) (simp del: rd_simps wr_simps)
      next
        case T2: True
        define r' where "r' = clone_t (n + 1 + tsize l) r"
        from 4(5) T2 have c4: "res4 = Returns (rootp r')" "repr (cells h4) (Some n) r'"
          "nxt h4 = n + 1 + tsize l + tsize r" "avail h4 = avail h - 1 - tsize l - tsize r"
          by (simp_all add: n3 r'_def)
        have c4n: "cells h4 n = Some \<lparr>val = kv, left = rootp l', right = None, parent = q, height = 1\<rparr>"
          using 4(4) n3 by (simp add: h3_def)
        have al: "addrs l' = {n + 1 ..< n + 1 + tsize l}" "addrs r' = {n + 1 + tsize l ..< n + 1 + tsize l + tsize r}"
          unfolding l'_def r'_def by (simp_all add: addrs_clone)
        have rl4: "repr (cells h4) (Some n) l'"
        proof -
          have "repr (cells h3) (Some n) l'" using c2(2) al(1) by (simp add: h3_def)
          moreover have "repr (cells h4) (Some n) l' = repr (cells h3) (Some n) l'"
            by (rule repr_cong) (use 4(4) al(1) n3 in auto)
          ultimately show ?thesis by simp
        qed
        define h5 where "h5 = h4\<lparr>cells := (cells h4)(n \<mapsto> \<lparr>val = kv, left = rootp l', right = rootp r', parent = q, height = 1\<rparr>)\<rparr>"
        define h6 where "h6 = h5\<lparr>cells := (cells h5)(n \<mapsto> \<lparr>val = kv, left = rootp l', right = rootp r', parent = q,
              height = max (hto l') (hto r') + 1\<rparr>)\<rparr>"
        have w5: "wr h4 (Some n) (\<lambda>x. x\<lparr>right := rootp r'\<rparr>) = Some h5" using c4n by (simp add: h5_def)
        have rr5: "repr (cells h5) (Some n) l'" "repr (cells h5) (Some n) r'"
          using rl4 c4(2) al by (simp_all add: h5_def)
        have i6: "int32 (max (hto l') (hto r') + 1) = max (hto l') (hto r') + 1"
          unfolding l'_def r'_def hto_clone_hgt
          using hg hgt_nonneg[of l] hgt_nonneg[of r] by (intro int32_node) linarith+
        have u6: "update h5 (Some n) = Some h6"
          using rr5 by (simp add: update_def h6_def max_if i6) (simp add: h5_def i6)
        have t': "clone_t n (Nd l a kv c r) = Nd l' n kv (max (hto l') (hto r') + 1) r'"
          by (simp add: node_t_def l'_def r'_def)
        have rep: "repr (cells h6) q (Nd l' n kv (max (hto l') (hto r') + 1) r')"
          using rr5 al by (auto simp: h6_def)
        have ok6: "heap_ok h6" using 4(2) c4n unfolding heap_ok_def h6_def h5_def by (auto split: if_splits)
        have rm6: "room h6 = room h"
          unfolding h6_def h5_def using room_upd[of n h4] c4n 4(6) rm3 by (simp add: domI room_def insert_absorb)
        have a6: "\<forall>x. x < nxt h \<longrightarrow> cells h6 x = cells h x" using a4 by (simp add: h6_def h5_def n_def)
        have n6: "nxt h6 = n + 1 + tsize l + tsize r" "avail h6 = avail h - 1 - tsize l - tsize r"
          using c4(3,4) by (simp_all add: h6_def h5_def)
        have le: "tsize (Nd l a kv c r) \<le> avail h" using T1 T2 n1 n3 False by simp
        have "cloneSubtree h (rootp (Nd l a kv c r)) q = Some (h6, Returns (Some n))"
          using rdv nn 2(1) c2(1) w3 rd3 4(1) c4(1) w5 u6
          by (subst cloneSubtree.simps) (simp del: rd_simps wr_simps)
        then show ?thesis using ok6 a6 n6 le rep t' rm6 by (simp add: n_def[symmetric])
      qed
    qed
  qed
qed

subsection \<open>Successor, predecessor and the traversal\<close>

lemma lmost_None [simp]: "(lmost t = None) = (t = Lf)"
  by (induction t) auto

lemma rmost_None [simp]: "(rmost t = None) = (t = Lf)"
  by (induction t) auto

lemma nextNode_loop_zrepr:
  "zrepr (cells h) rt t fs \<Longrightarrow> t \<noteq> Lf \<Longrightarrow> nextNode_loop h (rootp t) (cpar fs) = Some (upR fs)"
proof (induction fs arbitrary: t)
  case Nil
  show ?case by (subst nextNode_loop.simps) simp
next
  case (Cons f fs)
  obtain isL p kp cp s where f: "f = Fr isL p kp cp s" by (cases f)
  obtain x where x: "rootp t = Some x" using Cons.prems(2) by (cases t) auto
  from Cons.prems(1) have g:
    "cells h p = Some \<lparr>val = kp, left = (if isL then rootp t else rootp s),
        right = (if isL then rootp s else rootp t), parent = cpar fs, height = cp\<rparr>"
    "addrs t \<inter> addrs s = {}"
    unfolding f by (auto simp: zrepr_def)
  have ne: "rootp s \<noteq> Some x" using g(2) rootp_Some[OF x] by (auto dest: rootp_Some)
  show ?case
  proof (cases isL)
    case True
    then show ?thesis unfolding f x using g(1) ne x by (subst nextNode_loop.simps) auto
  next
    case False
    have z1: "zrepr (cells h) rt (plug1 t f) fs" using Cons.prems(1) by (simp add: zrepr_plug)
    have "nextNode_loop h (rootp (plug1 t f)) (cpar fs) = Some (upR fs)"
      by (rule Cons.IH[OF z1]) (simp add: f)
    then show ?thesis unfolding f x using g(1) x False by (subst nextNode_loop.simps) auto
  qed
qed

lemma prevNode_loop_zrepr:
  "zrepr (cells h) rt t fs \<Longrightarrow> t \<noteq> Lf \<Longrightarrow> prevNode_loop h (rootp t) (cpar fs) = Some (upL fs)"
proof (induction fs arbitrary: t)
  case Nil
  show ?case by (subst prevNode_loop.simps) simp
next
  case (Cons f fs)
  obtain isL p kp cp s where f: "f = Fr isL p kp cp s" by (cases f)
  obtain x where x: "rootp t = Some x" using Cons.prems(2) by (cases t) auto
  from Cons.prems(1) have g:
    "cells h p = Some \<lparr>val = kp, left = (if isL then rootp t else rootp s),
        right = (if isL then rootp s else rootp t), parent = cpar fs, height = cp\<rparr>"
    "addrs t \<inter> addrs s = {}"
    unfolding f by (auto simp: zrepr_def)
  have ne: "rootp s \<noteq> Some x" using g(2) rootp_Some[OF x] by (auto dest: rootp_Some)
  show ?case
  proof (cases isL)
    case False
    then show ?thesis unfolding f x using g(1) ne x by (subst prevNode_loop.simps) auto
  next
    case True
    have z1: "zrepr (cells h) rt (plug1 t f) fs" using Cons.prems(1) by (simp add: zrepr_plug)
    have "prevNode_loop h (rootp (plug1 t f)) (cpar fs) = Some (upL fs)"
      by (rule Cons.IH[OF z1]) (simp add: f)
    then show ?thesis unfolding f x using g(1) x True by (subst prevNode_loop.simps) auto
  qed
qed

lemma nextNode_zrepr:
  assumes z: "zrepr (cells h) rt (Nd l a kv c r) fs"
  shows "nextNode h (Some a) = Some (start r (Fr False a kv c l # fs))"
proof -
  from z have f:
    "cells h a = Some \<lparr>val = kv, left = rootp l, right = rootp r, parent = cpar fs, height = c\<rparr>"
    "repr (cells h) (Some a) r"
    by (auto simp: zrepr_def)
  show ?thesis
  proof (cases "r = Lf")
    case True
    then show ?thesis using f(1) nextNode_loop_zrepr[OF z]
      by (simp add: nextNode_def start_def)
  next
    case False
    then obtain x where "lmost r = Some x" by (cases "lmost r") auto
    then show ?thesis using f(1) False minNode_repr[OF f(2)]
      by (simp add: nextNode_def start_def)
  qed
qed

lemma prevNode_zrepr:
  assumes z: "zrepr (cells h) rt (Nd l a kv c r) fs"
  shows "prevNode h (Some a) = Some (case rmost l of Some x \<Rightarrow> Some x | None \<Rightarrow> upL fs)"
proof -
  from z have f:
    "cells h a = Some \<lparr>val = kv, left = rootp l, right = rootp r, parent = cpar fs, height = c\<rparr>"
    "repr (cells h) (Some a) l"
    by (auto simp: zrepr_def)
  show ?thesis
  proof (cases "l = Lf")
    case True
    then show ?thesis using f(1) prevNode_loop_zrepr[OF z]
      by (simp add: prevNode_def)
  next
    case False
    then obtain x where "rmost l = Some x" by (cases "rmost l") auto
    then show ?thesis using f(1) False maxNode_repr[OF f(2)]
      by (simp add: prevNode_def)
  qed
qed

lemma start_Nd: "start (Nd l a kv c r) fs = start l (Fr True a kv c r # fs)"
  by (cases "lmost l") (auto simp: start_def)

lemma traverse_zrepr:
  assumes o: "objs w i = Some m"
  shows "zrepr (cells (hp w)) rt t fs \<Longrightarrow>
   traverse w \<lparr>nodePtr = upR fs, owner = Some i\<rparr> (map_end i) = Some (Returns rest) \<Longrightarrow>
   traverse w \<lparr>nodePtr = start t fs, owner = Some i\<rparr> (map_end i) = Some (Returns (entries t @ rest))"
proof (induction t arbitrary: fs rest)
  case Lf
  then show ?case by (simp add: start_def entries_def)
next
  case (Nd l a kv c r)
  have c: "cells (hp w) a = Some \<lparr>val = kv, left = rootp l, right = rootp r, parent = cpar fs, height = c\<rparr>"
    using Nd.prems(1) by (rule cell_zrepr)
  have nx: "nextNode (hp w) (Some a) = Some (start r (Fr False a kv c l # fs))"
    using Nd.prems(1) by (rule nextNode_zrepr)
  have tr: "traverse w \<lparr>nodePtr = start r (Fr False a kv c l # fs), owner = Some i\<rparr> (map_end i) =
            Some (Returns (entries r @ rest))"
    using Nd.IH(2)[OF zrepr_downR[OF Nd.prems(1)]] Nd.prems(2) by simp
  have ta: "traverse w \<lparr>nodePtr = Some a, owner = Some i\<rparr> (map_end i) =
            Some (Returns (kv # entries r @ rest))"
    by (subst traverse.simps)
       (simp add: iter_eq_def map_end_def iter_deref_def iter_inc_def c o nx tr[unfolded map_end_def])
  have "traverse w \<lparr>nodePtr = start l (Fr True a kv c r # fs), owner = Some i\<rparr> (map_end i) =
            Some (Returns (entries l @ kv # entries r @ rest))"
    using Nd.IH(1)[OF zrepr_downL[OF Nd.prems(1)]] ta by simp
  then show ?case by (simp add: start_Nd entries_def)
qed

lemma traverse_all:
  assumes o: "objs w i = Some m" and z: "zrepr (cells (hp w)) (root m) T []"
  shows "(map_begin (hp w) m i \<bind> (\<lambda>b. traverse w b (map_end i))) = Some (Returns (entries T))"
proof -
  have e: "traverse w \<lparr>nodePtr = upR [], owner = Some i\<rparr> (map_end i) = Some (Returns [])"
    by (subst traverse.simps) (simp add: iter_eq_def map_end_def)
  have s: "start T [] = lmost T" by (cases "lmost T") (auto simp: start_def)
  have b: "map_begin (hp w) m i = Some \<lparr>nodePtr = lmost T, owner = Some i\<rparr>"
    using z minNode_repr[of "hp w" None T] by (simp add: map_begin_def zrepr_def)
  show ?thesis using traverse_zrepr[OF o z e] by (simp add: b s)
qed

lemma upL_allL: "\<forall>g \<in> set fs. isLeftFrame g \<Longrightarrow> upL fs = None"
  by (induction fs rule: upL.induct) auto

lemma dec_begin_throws:
  assumes o: "objs w i = Some m" and z: "zrepr (cells (hp w)) (root m) T []"
    and b: "map_begin (hp w) m i = Some it"
  shows "iter_dec w it = Some (Throws invalid_iterator)"
proof -
  have it: "it = \<lparr>nodePtr = lmost T, owner = Some i\<rparr>"
    using b z minNode_repr[of "hp w" None T] by (simp add: map_begin_def zrepr_def)
  show ?thesis
  proof (cases "T = Lf")
    case True
    then show ?thesis using o z unfolding it by (simp add: iter_dec_def zrepr_def maxNode_def)
  next
    case False
    obtain fo gs where lf: "lfocus T [] = (fo, gs)" by (cases "lfocus T []")
    from lfocus_shape[OF lf False] obtain a kv c r where
      fo: "fo = Nd Lf a kv c r" and lm: "lmost T = Some a" and allL: "\<forall>g \<in> set gs. isLeftFrame g"
      by auto
    have zf: "zrepr (cells (hp w)) (root m) (Nd Lf a kv c r) gs"
      using z lfocus_plug[OF lf] fo by (simp add: zrepr_plug)
    have "prevNode (hp w) (Some a) = Some None"
      using prevNode_zrepr[OF zf] upL_allL[OF allL] by simp
    then show ?thesis using o unfolding it lm by (simp add: iter_dec_def)
  qed
qed

lemma inorder_Nil [simp]: "(inorder t = []) = (t = Lf)"
  by (cases t) auto

lemma rmost_last: "t \<noteq> Lf \<Longrightarrow> rmost t = Some (fst (last (inorder t)))"
  by (induction t) auto

lemma lmost_hd: "t \<noteq> Lf \<Longrightarrow> lmost t = Some (fst (hd (inorder t)))"
  by (induction t) auto

subsection \<open>The member functions on a well-formed map\<close>

lemma zrepr_Nil: "zrepr cs rt T [] = (repr cs None T \<and> rt = rootp T)"
  by (auto simp: zrepr_def)

lemma wf_map_zrepr: "wf_map cs m T \<Longrightarrow> zrepr cs (root m) T []"
  by (simp add: wf_map_def zrepr_Nil)

lemma bst_inorder: "bst c T = sorted_wrt c (map (\<lambda>e. fst (snd e)) (inorder T))"
  by (simp add: bst_def keys_def entries_def comp_def)

lemma repr_val:
  "repr cs par t \<Longrightarrow> (a, kv) \<in> set (inorder t) \<Longrightarrow> \<exists>n. cs a = Some n \<and> val n = kv"
  by (induction t arbitrary: par) auto

lemma repr_distinct: "repr cs par t \<Longrightarrow> distinct (map fst (inorder t))"
  by (induction t arbitrary: par) (auto simp: addrs_inorder)

lemma avl_size: "havl t \<Longrightarrow> 2 ^ nat (hto t div 2) \<le> tsize t + 1"
proof (induction t)
  case Lf
  show ?case by simp
next
  case (Nd l a kv c r)
  have hl: "havl l" "havl r" "\<bar>hto l - hto r\<bar> \<le> 1" "c = max (hto l) (hto r) + 1"
    using Nd.prems by auto
  have nn: "0 \<le> hto l" "0 \<le> hto r" using hl(1,2) by (auto intro: hto_nonneg)
  show ?case
  proof (cases "c \<le> 1")
    case True
    then have "nat (c div 2) = 0" by simp
    then show ?thesis by simp
  next
    case False
    have a: "c - 2 \<le> hto l" "c - 2 \<le> hto r" using hl(3,4) by linarith+
    have m: "nat ((c - 2) div 2) \<le> nat (hto l div 2)" "nat ((c - 2) div 2) \<le> nat (hto r div 2)"
      using a by (auto intro!: nat_mono zdiv_mono1)
    have p: "(2::nat) ^ nat ((c - 2) div 2) \<le> 2 ^ nat (hto l div 2)"
            "(2::nat) ^ nat ((c - 2) div 2) \<le> 2 ^ nat (hto r div 2)"
      using m by (auto intro: power_increasing)
    have e: "nat (c div 2) = Suc (nat ((c - 2) div 2))" using False by linarith
    have "(2::nat) ^ nat (c div 2) = 2 ^ nat ((c - 2) div 2) + 2 ^ nat ((c - 2) div 2)"
      unfolding e by simp
    also have "\<dots> \<le> (tsize l + 1) + (tsize r + 1)"
      using p Nd.IH(1)[OF hl(1)] Nd.IH(2)[OF hl(2)] by linarith
    finally show ?thesis by simp
  qed
qed

lemma avl_height:
  assumes "havl t" "tsize t \<le> 2 ^ 64"
  shows "hto t \<le> 129"
proof (rule ccontr)
  assume "\<not> hto t \<le> 129"
  then have "130 \<le> hto t" by simp
  then have "65 \<le> nat (hto t div 2)" by linarith
  then have "(2::nat) ^ 65 \<le> 2 ^ nat (hto t div 2)" by (rule power_increasing) simp
  then have "(2::nat) ^ 65 \<le> tsize t + 1" using avl_size[OF assms(1)] by linarith
  then show False using assms(2) by simp
qed

lemma repr_card: "repr cs par t \<Longrightarrow> card (addrs t) = tsize t"
proof (induction t arbitrary: par)
  case Lf
  show ?case by simp
next
  case (Nd l a kv c r)
  have f: "finite (addrs l)" "finite (addrs r)" by (simp_all add: addrs_inorder)
  have "card (addrs l \<union> addrs r) = card (addrs l) + card (addrs r)"
    using Nd.prems f by (intro card_Un_disjoint) auto
  then show ?case using Nd f by auto
qed

lemma havl_hgt: "havl t \<Longrightarrow> hgt t = hto t"
  by (induction t) auto

lemma wf_small:
  assumes wf: "wf_map (cells h) m T" and ok: "heap_ok h" and ft: "fits h"
  shows "hto T \<le> 129" "hgt T \<le> 129" "tsize T \<le> card (dom (cells h))"
proof -
  have r: "repr (cells h) None T" "havl T" using wf by (auto simp: wf_map_def)
  have "card (addrs T) \<le> card (dom (cells h))"
    using repr_dom[OF r(1)] heap_ok_finite[OF ok] by (intro card_mono) auto
  then show c: "tsize T \<le> card (dom (cells h))" using repr_card[OF r(1)] by simp
  then have "tsize T \<le> 2 ^ 64" using ft by (simp add: fits_def room_def)
  then show "hto T \<le> 129" using avl_height[OF r(2)] by simp
  then show "hgt T \<le> 129" using havl_hgt[OF r(2)] by simp
qed

lemma map_insert_dup:
  assumes z: "zrepr (cells h) (root m) T []" and d: "descend (cmp m) (fst v) T [] = (t', fs)"
    and t': "t' \<noteq> Lf"
  shows "map_insert h m this v = Some (h, m, Returns (\<lparr>nodePtr = rootp t', owner = Some this\<rparr>, False))"
proof -
  have r: "root m = rootp T" using z by (simp add: zrepr_Nil)
  show ?thesis using insert_loop_zrepr[OF z d] t' by (simp add: map_insert_def r)
qed

lemma map_insert_full:
  assumes z: "zrepr (cells h) (root m) T []" and d: "descend (cmp m) (fst v) T [] = (Lf, fs)"
    and av: "avail h = 0"
  shows "map_insert h m this v = Some (h, m, Throws bad_alloc)"
proof -
  have r: "root m = rootp T" using z by (simp add: zrepr_Nil)
  show ?thesis using insert_loop_zrepr[OF z d] av by (simp add: map_insert_def r new_Node_def)
qed

lemma step_ok_refl: "heap_ok h \<Longrightarrow> step_ok h T h T"
  by (auto simp: step_ok_def)

lemma map_insert_spec:
  assumes wf: "wf_map (cells h) m T" and ok: "heap_ok h" and ft: "fits h"
  shows "case find (\<lambda>e. equiv_key (cmp m) (fst v) (fst (snd e))) (inorder T) of
           Some (a, kv) \<Rightarrow>
             map_insert h m this v = Some (h, m, Returns (\<lparr>nodePtr = Some a, owner = Some this\<rparr>, False))
         | None \<Rightarrow>
             if avail h = 0 then map_insert h m this v = Some (h, m, Throws bad_alloc)
             else \<exists>h' m' T' xs ys.
                    map_insert h m this v =
                      Some (h', m', Returns (\<lparr>nodePtr = Some (nxt h), owner = Some this\<rparr>, True)) \<and>
                    wf_map (cells h') m' T' \<and> step_ok h T h' T' \<and>
                    inorder T = xs @ ys \<and> inorder T' = xs @ (nxt h, v) # ys \<and>
                    nodeCount m' = nodeCount m + 1 \<and> cmp m' = cmp m \<and>
                    dom (cells h') = insert (nxt h) (dom (cells h)) \<and>
                    nxt h' = nxt h + 1 \<and> avail h' = avail h - 1"
proof -
  have z: "zrepr (cells h) (root m) T []" using wf by (rule wf_map_zrepr)
  have s: "swo (cmp m)" and b: "bst (cmp m) T" and hv: "havl T"
    and nc: "nodeCount m = of_nat (tsize T)"
    using wf by (auto simp: wf_map_def)
  obtain t' fs where d: "descend (cmp m) (fst v) T [] = (t', fs)"
    by (cases "descend (cmp m) (fst v) T []")
  show ?thesis
  proof (cases "t' = Lf")
    case False
    from descend_present[OF d False] obtain a kv where
      a: "rootp t' = Some a" "(a, kv) \<in> set (inorder T)" "equiv_key (cmp m) (fst v) (fst kv)"
      by blast
    have "find (\<lambda>e. equiv_key (cmp m) (fst v) (fst (snd e))) (inorder T) = Some (a, kv)"
      by (rule find_equiv[OF s b[unfolded bst_inorder] a(2)]) (simp add: a(3))
    then show ?thesis using map_insert_dup[OF z d False, of this] a(1) by simp
  next
    case True
    note d = d[unfolded True]
    have io: "inorder T = before fs @ after fs"
      using plug_descend[OF d] inorder_plug[of Lf fs] by simp
    have "\<forall>x \<in> set (entries T). \<not> equiv_key (cmp m) (fst v) (fst x)"
      by (rule descend_absent[OF d s b])
    then have fn: "find (\<lambda>e. equiv_key (cmp m) (fst v) (fst (snd e))) (inorder T) = None"
      by (auto simp: find_None_iff entries_def)
    show ?thesis
    proof (cases "avail h = 0")
      case True
      then show ?thesis using map_insert_full[OF z d True, of this] fn by simp
    next
      case False
      then have mem: "0 < avail h" by simp
      have sm: "hto T < 1073741824" using wf_small(1)[OF wf ok ft] by simp
      from map_insert_new[OF z hv ok d mem sm, of this] obtain h' m' T' where r:
        "map_insert h m this v = Some (h', m', Returns (\<lparr>nodePtr = Some (nxt h), owner = Some this\<rparr>, True))"
        "zrepr (cells h') (root m') T' []" "havl T'"
        "inorder T' = before fs @ (nxt h, v) # after fs"
        "nodeCount m' = nodeCount m + 1" "cmp m' = cmp m"
        "nxt h' = nxt h + 1" "avail h' = avail h - 1"
        "dom (cells h') = insert (nxt h) (dom (cells h))"
        "\<forall>a. a \<notin> addrs T \<and> a \<noteq> nxt h \<longrightarrow> cells h' a = cells h a"
        by blast
      have bs: "bst (cmp m') T'"
        using bst_insert_hole[OF d s b, of "nxt h" "snd v"]
        unfolding bst_inorder r(4) r(6) by (simp add: comp_def)
      have ts: "tsize T' = Suc (tsize T)" unfolding tsize_inorder r(4) io by simp
      have w: "wf_map (cells h') m' T'"
        using r(2) r(3) bs s r(5) r(6) nc ts by (simp add: wf_map_def zrepr_Nil)
      have ad: "addrs T' = insert (nxt h) (addrs T)" unfolding addrs_inorder r(4) io by auto
      have "card (insert (nxt h) (dom (cells h))) = Suc (card (dom (cells h)))"
        using heap_ok_finite[OF ok] ok by (intro card_insert_disjoint) (auto simp: heap_ok_def)
      then have rm: "room h' = room h"
        using r(8) r(9) False by (simp add: room_def)
      have st: "step_ok h T h' T'"
        using ok r(7) r(9) r(10) ad rm by (auto simp: step_ok_def heap_ok_def)
      show ?thesis using fn False r(1) w st io r(4) r(5) r(6) r(7) r(8) r(9) by auto
    qed
  qed
qed

lemma focus_node:
  assumes "a \<in> addrs T"
  shows "\<exists>l kv c r fs. T = plug (Nd l a kv c r) fs"
proof -
  from focus_addr[OF assms, of "[]"] obtain t fs where t: "plug t fs = T" "rootp t = Some a"
    by auto
  then obtain l kv c r where "t = Nd l a kv c r" by (cases t) auto
  then show ?thesis using t(1) by blast
qed

lemma map_erase_spec:
  assumes wf: "wf_map (cells h) m T" and ok: "heap_ok h" and ft: "fits h" and zin: "z \<in> addrs T"
  shows "\<exists>h' m' T' xs kv ys.
           map_erase h m this \<lparr>nodePtr = Some z, owner = Some this\<rparr> = Some (h', m', Returns ()) \<and>
           wf_map (cells h') m' T' \<and> step_ok h T h' T' \<and>
           inorder T = xs @ (z, kv) # ys \<and> inorder T' = xs @ ys \<and>
           nodeCount m' = nodeCount m - 1 \<and> cmp m' = cmp m \<and>
           dom (cells h') = dom (cells h) - {z} \<and> nxt h' = nxt h \<and> avail h' = avail h + 1"
proof -
  have s: "swo (cmp m)" and b: "bst (cmp m) T" and hv: "havl T"
    and nc: "nodeCount m = of_nat (tsize T)"
    using wf by (auto simp: wf_map_def)
  from focus_node[OF zin] obtain l kv c r fs where T: "T = plug (Nd l z kv c r) fs" by blast
  have z: "zrepr (cells h) (root m) (Nd l z kv c r) fs"
    using wf_map_zrepr[OF wf] unfolding T by (simp add: zrepr_plug)
  have sm: "hto (plug (Nd l z kv c r) fs) < 1073741823"
    using wf_small(1)[OF wf ok ft] unfolding T by simp
  obtain h' m' T' where r0:
    "eraseNode h m (Some z) = Some (h', m') \<and> zrepr (cells h') (root m') T' [] \<and> havl T' \<and>
     inorder T' = before fs @ inorder l @ inorder r @ after fs \<and>
     nodeCount m' = nodeCount m - 1 \<and> cmp m' = cmp m \<and> nxt h' = nxt h \<and> avail h' = avail h + 1 \<and>
     dom (cells h') = dom (cells h) - {z} \<and>
     (\<forall>a. a \<notin> addrs (Nd l z kv c r) \<union> caddrs fs \<longrightarrow> cells h' a = cells h a)"
    using eraseNode_zrepr[OF z hv[unfolded T] sm] by (elim exE) (rule that)
  have r:
    "eraseNode h m (Some z) = Some (h', m')" "zrepr (cells h') (root m') T' []" "havl T'"
    "inorder T' = before fs @ inorder l @ inorder r @ after fs"
    "nodeCount m' = nodeCount m - 1" "cmp m' = cmp m" "nxt h' = nxt h" "avail h' = avail h + 1"
    "dom (cells h') = dom (cells h) - {z}"
    "\<forall>a. a \<notin> addrs (Nd l z kv c r) \<union> caddrs fs \<longrightarrow> cells h' a = cells h a"
    using r0 by blast+
  have io: "inorder T = (before fs @ inorder l) @ (z, kv) # (inorder r @ after fs)"
    unfolding T inorder_plug by simp
  have io': "inorder T' = (before fs @ inorder l) @ (inorder r @ after fs)"
    using r(4) by simp
  have bs: "bst (cmp m') T'"
    using b unfolding bst_inorder io io' r(6) by (simp add: sorted_wrt_append)
  have ts: "tsize T = Suc (tsize T')" unfolding tsize_inorder io io' by simp
  have w: "wf_map (cells h') m' T'"
    using r(2) r(3) bs s r(5) r(6) nc ts by (simp add: wf_map_def zrepr_Nil)
  have ad: "addrs T' \<subseteq> addrs T" unfolding addrs_inorder io io' by auto
  have adT: "addrs T = addrs (Nd l z kv c r) \<union> caddrs fs" unfolding T by (rule addrs_plug)
  have zd: "z \<in> dom (cells h)" using repr_dom[of "cells h" None T] wf zin by (auto simp: wf_map_def)
  have rm: "room h' = room h"
    using r(8) r(9) card_Suc_Diff1[OF heap_ok_finite[OF ok] zd] by (simp add: room_def)
  have st: "step_ok h T h' T'"
    using ok r(7) r(9) r(10) ad rm unfolding adT[symmetric] by (auto simp: step_ok_def heap_ok_def)
  have me: "map_erase h m this \<lparr>nodePtr = Some z, owner = Some this\<rparr> = Some (h', m', Returns ())"
    using r(1) by (simp add: map_erase_def)
  show ?thesis
    apply (rule exI[of _ h'])
    apply (rule exI[of _ m'])
    apply (rule exI[of _ T'])
    apply (rule exI[of _ "before fs @ inorder l"])
    apply (rule exI[of _ kv])
    apply (rule exI[of _ "inorder r @ after fs"])
    using me w st io io' r(5) r(6) r(7) r(8) r(9) by simp
qed

lemma map_clear_spec:
  assumes wf: "wf_map (cells h) m T" and ok: "heap_ok h"
  shows "\<exists>h'. map_clear h m = Some (h', m\<lparr>root := None, nodeCount := 0\<rparr>) \<and>
           h' = h\<lparr>cells := cells h |` (- addrs T), avail := avail h + tsize T\<rparr> \<and>
           wf_map (cells h') (m\<lparr>root := None, nodeCount := 0\<rparr>) Lf \<and> step_ok h T h' Lf"
proof -
  have rp: "repr (cells h) None T" "root m = rootp T" "swo (cmp m)" using wf by (auto simp: wf_map_def)
  have c: "map_clear h m = Some (h\<lparr>cells := cells h |` (- addrs T), avail := avail h + tsize T\<rparr>,
      m\<lparr>root := None, nodeCount := 0\<rparr>)"
    using destroySubtree_repr[OF rp(1)] by (simp add: map_clear_def rp(2))
  have w: "wf_map (cells h |` (- addrs T)) (m\<lparr>root := None, nodeCount := 0\<rparr>) Lf"
    using rp(3) by (simp add: wf_map_def bst_def keys_def entries_def)
  have dm: "dom (cells h |` (- addrs T)) = dom (cells h) - addrs T" by auto
  have dm': "dom (cells h) \<inter> - addrs T = dom (cells h) - addrs T" by auto
  have "card (dom (cells h) - addrs T) = card (dom (cells h)) - card (addrs T)"
    using repr_dom[OF rp(1)] by (intro card_Diff_subset) (auto simp: addrs_inorder)
  moreover have "card (addrs T) \<le> card (dom (cells h))"
    using repr_dom[OF rp(1)] heap_ok_finite[OF ok] by (intro card_mono) auto
  ultimately have rm: "room (h\<lparr>cells := cells h |` (- addrs T), avail := avail h + tsize T\<rparr>) = room h"
    using repr_card[OF rp(1)] by (simp add: room_def dm')
  have st: "step_ok h T (h\<lparr>cells := cells h |` (- addrs T), avail := avail h + tsize T\<rparr>) Lf"
    using ok rm by (auto simp: step_ok_def heap_ok_def restrict_map_def domI split: if_splits)
  show ?thesis using c w st by simp
qed

lemma tsize_clone [simp]: "tsize (clone_t n t) = tsize t"
  unfolding tsize_inorder using arg_cong[OF entries_clone[of n t], of length] by simp

lemma map_copy_spec:
  assumes wf: "wf_map (cells h) mo T" and ok: "heap_ok h" and ft: "fits h"
  shows "\<exists>h' res. map_copy h mo = Some (h', res) \<and> heap_ok h' \<and> fits h' \<and> nxt h \<le> nxt h' \<and>
           (\<forall>a. a < nxt h \<longrightarrow> cells h' a = cells h a) \<and>
           (if tsize T \<le> avail h
            then res = Returns \<lparr>root = rootp (clone_t (nxt h) T), nodeCount = nodeCount mo, cmp = cmp mo\<rparr> \<and>
                 wf_map (cells h') \<lparr>root = rootp (clone_t (nxt h) T), nodeCount = nodeCount mo, cmp = cmp mo\<rparr>
                   (clone_t (nxt h) T) \<and>
                 nxt h' = nxt h + tsize T \<and> avail h' = avail h - tsize T
            else res = Throws bad_alloc)"
proof -
  have rp: "repr (cells h) None T" "root mo = rootp T" "swo (cmp mo)" "havl T" "bst (cmp mo) T"
    "nodeCount mo = of_nat (tsize T)"
    using wf by (auto simp: wf_map_def)
  have hg: "hgt T < 2147483648" using wf_small(2)[OF wf ok ft] by simp
  obtain h' res where r0:
    "cloneSubtree h (rootp T) None = Some (h', res) \<and> heap_ok h' \<and> nxt h \<le> nxt h' \<and>
     (\<forall>a. a < nxt h \<longrightarrow> cells h' a = cells h a) \<and>
     (if tsize T \<le> avail h
      then res = Returns (rootp (clone_t (nxt h) T)) \<and> repr (cells h') None (clone_t (nxt h) T) \<and>
           nxt h' = nxt h + tsize T \<and> avail h' = avail h - tsize T
      else res = Throws bad_alloc) \<and>
     room h' = room h"
    using cloneSubtree_repr[OF rp(1) ok hg, of None] by (elim exE) (rule that)
  have r: "cloneSubtree h (rootp T) None = Some (h', res)" "heap_ok h'" "nxt h \<le> nxt h'"
    "\<forall>a. a < nxt h \<longrightarrow> cells h' a = cells h a"
    "if tsize T \<le> avail h
     then res = Returns (rootp (clone_t (nxt h) T)) \<and> repr (cells h') None (clone_t (nxt h) T) \<and>
          nxt h' = nxt h + tsize T \<and> avail h' = avail h - tsize T
     else res = Throws bad_alloc"
    "fits h'"
    using r0 ft by (simp_all add: fits_def)
  have bs: "bst (cmp mo) (clone_t (nxt h) T)"
    using rp(5) by (simp add: bst_def keys_def entries_def entries_clone)
  have mc: "map_copy h mo = Some (h', case res of Throws e \<Rightarrow> Throws e
      | Returns p \<Rightarrow> Returns \<lparr>root = p, nodeCount = nodeCount mo, cmp = cmp mo\<rparr>)"
    using r(1) by (cases res) (simp_all add: map_copy_def rp(2))
  show ?thesis
  proof (cases "tsize T \<le> avail h")
    case True
    with r(5) have t: "res = Returns (rootp (clone_t (nxt h) T))" "repr (cells h') None (clone_t (nxt h) T)"
      "nxt h' = nxt h + tsize T" "avail h' = avail h - tsize T"
      by auto
    have w: "wf_map (cells h') \<lparr>root = rootp (clone_t (nxt h) T), nodeCount = nodeCount mo, cmp = cmp mo\<rparr>
                   (clone_t (nxt h) T)"
      using t(2) bs rp(3) rp(4) rp(6) by (simp add: wf_map_def havl_clone)
    show ?thesis
      apply (rule exI[of _ h'])
      apply (rule exI[of _ "Returns \<lparr>root = rootp (clone_t (nxt h) T), nodeCount = nodeCount mo, cmp = cmp mo\<rparr>"])
      using mc r(2) r(3) r(4) r(6) True w t(3) t(4) by (simp add: t(1))
  next
    case False
    with r(5) have t: "res = Throws bad_alloc" by auto
    show ?thesis
      apply (rule exI[of _ h'])
      apply (rule exI[of _ "Throws bad_alloc"])
      using mc r(2) r(3) r(4) r(6) False by (simp add: t)
  qed
qed

lemma havl_plug_swap:
  "havl (plug t fs) \<Longrightarrow> havl t' \<Longrightarrow> hto t' = hto t \<Longrightarrow> havl (plug t' fs)"
proof (induction fs arbitrary: t t')
  case Nil
  then show ?case by simp
next
  case (Cons f fs)
  obtain isL a kv c s where f: "f = Fr isL a kv c s" by (cases f)
  have h1: "havl (plug1 t f)" using havl_plug[of "plug1 t f" fs] Cons.prems(1) by simp
  have h2: "havl (plug1 t' f)" using h1 Cons.prems(2,3) unfolding f by (auto split: if_splits)
  have h3: "hto (plug1 t' f) = hto (plug1 t f)" unfolding f by simp
  show ?case using Cons.IH[of "plug1 t f" "plug1 t' f"] Cons.prems(1) h2 h3 by simp
qed

lemma assign_second_spec:
  assumes wf: "wf_map (cells h) m T" and ok: "heap_ok h" and zin: "z \<in> addrs T"
  shows "\<exists>h' T' xs kv ys.
           assign_second h (Some z) v = Some h' \<and>
           wf_map (cells h') m T' \<and> step_ok h T h' T' \<and> addrs T' = addrs T \<and>
           inorder T = xs @ (z, kv) # ys \<and> inorder T' = xs @ (z, (fst kv, v)) # ys \<and>
           dom (cells h') = dom (cells h) \<and> nxt h' = nxt h \<and> avail h' = avail h"
proof -
  have s: "swo (cmp m)" and b: "bst (cmp m) T" and hv: "havl T"
    and nc: "nodeCount m = of_nat (tsize T)"
    using wf by (auto simp: wf_map_def)
  from focus_node[OF zin] obtain l kv c r fs where T: "T = plug (Nd l z kv c r) fs" by blast
  have z: "zrepr (cells h) (root m) (Nd l z kv c r) fs"
    using wf_map_zrepr[OF wf] unfolding T by (simp add: zrepr_plug)
  define n' where "n' = \<lparr>val = (fst kv, v), left = rootp l, right = rootp r, parent = cpar fs, height = c\<rparr>"
  define h' where "h' = h\<lparr>cells := (cells h)(z \<mapsto> n')\<rparr>"
  define T' where "T' = plug (Nd l z (fst kv, v) c r) fs"
  have c: "cells h z = Some \<lparr>val = kv, left = rootp l, right = rootp r, parent = cpar fs, height = c\<rparr>"
    using z by (rule cell_zrepr)
  have as: "assign_second h (Some z) v = Some h'"
    by (simp add: assign_second_def wr_def c h'_def n'_def)
  have z': "zrepr (cells h') (root m) (Nd l z (fst kv, v) c r) fs"
    using z by (auto simp: zrepr_def h'_def n'_def)
  have zT: "zrepr (cells h') (root m) T' []" using z' by (simp add: T'_def zrepr_plug)
  have hv': "havl T'" unfolding T'_def
    by (rule havl_plug_swap[OF hv[unfolded T]]) (use havl_plug[OF hv[unfolded T]] in auto)
  have io: "inorder T = (before fs @ inorder l) @ (z, kv) # (inorder r @ after fs)"
    unfolding T inorder_plug by simp
  have io': "inorder T' = (before fs @ inorder l) @ (z, (fst kv, v)) # (inorder r @ after fs)"
    unfolding T'_def inorder_plug by simp
  have bs: "bst (cmp m) T'" using b unfolding bst_inorder io io' by simp
  have ts: "tsize T' = tsize T" unfolding tsize_inorder io io' by simp
  have w: "wf_map (cells h') m T'"
    using zT hv' bs s nc ts by (simp add: wf_map_def zrepr_Nil)
  have ad: "addrs T' = addrs T" unfolding addrs_inorder io io' by auto
  have dm: "dom (cells h') = dom (cells h)" using c by (auto simp: h'_def)
  have rm: "room h' = room h" using dm by (simp add: room_def h'_def)
  have st: "step_ok h T h' T'"
    using ok ad zin dm rm by (auto simp: step_ok_def heap_ok_def h'_def)
  show ?thesis
    apply (rule exI[of _ h'])
    apply (rule exI[of _ T'])
    apply (rule exI[of _ "before fs @ inorder l"])
    apply (rule exI[of _ kv])
    apply (rule exI[of _ "inorder r @ after fs"])
    using as w st ad io io' dm by (simp add: h'_def)
qed

lemma findNode_spec:
  assumes wf: "wf_map (cells h) m T"
  shows "findNode h m k = Some (map_option fst (find (\<lambda>e. equiv_key (cmp m) k (fst (snd e))) (inorder T)))"
proof -
  have z: "zrepr (cells h) (root m) T []" using wf by (rule wf_map_zrepr)
  have s: "swo (cmp m)" and b: "bst (cmp m) T" and rt: "root m = rootp T"
    using wf by (auto simp: wf_map_def)
  obtain t' fs where d: "descend (cmp m) k T [] = (t', fs)"
    by (cases "descend (cmp m) k T []")
  have f: "findNode h m k = Some (rootp t')"
    using findNode_loop_zrepr[OF z d] by (simp add: findNode_def rt)
  show ?thesis
  proof (cases "t' = Lf")
    case False
    from descend_present[OF d False] obtain a kv where
      a: "rootp t' = Some a" "(a, kv) \<in> set (inorder T)" "equiv_key (cmp m) k (fst kv)"
      by blast
    have "find (\<lambda>e. equiv_key (cmp m) k (fst (snd e))) (inorder T) = Some (a, kv)"
      by (rule find_equiv[OF s b[unfolded bst_inorder] a(2)]) (simp add: a(3))
    then show ?thesis using f a(1) by simp
  next
    case True
    have "\<forall>x \<in> set (entries T). \<not> equiv_key (cmp m) k (fst x)"
      by (rule descend_absent[OF d[unfolded True] s b])
    then have "find (\<lambda>e. equiv_key (cmp m) k (fst (snd e))) (inorder T) = None"
      by (auto simp: find_None_iff entries_def)
    then show ?thesis using f True by simp
  qed
qed

lemma map_at_spec:
  assumes wf: "wf_map (cells h) m T"
  shows "map_at h m k =
           Some (case find (\<lambda>e. equiv_key (cmp m) k (fst (snd e))) (inorder T) of
                   Some (a, kv) \<Rightarrow> Returns (snd kv) | None \<Rightarrow> Throws index_out_of_bound)"
proof (cases "find (\<lambda>e. equiv_key (cmp m) k (fst (snd e))) (inorder T)")
  case None
  then show ?thesis using findNode_spec[OF wf, of k] by (simp add: map_at_def)
next
  case (Some e)
  obtain a kv where e: "e = (a, kv)" by (cases e)
  have "(a, kv) \<in> set (inorder T)" using Some unfolding e by (auto simp: find_Some_iff)
  then obtain n where n: "cells h a = Some n" "val n = kv"
    using repr_val[of "cells h" None T a kv] wf by (auto simp: wf_map_def)
  show ?thesis using findNode_spec[OF wf, of k] Some n by (simp add: map_at_def e rd_def)
qed

lemma map_index_const_spec:
  assumes wf: "wf_map (cells h) m T"
  shows "map_index_const h m k =
           Some (case find (\<lambda>e. equiv_key (cmp m) k (fst (snd e))) (inorder T) of
                   Some (a, kv) \<Rightarrow> Returns (snd kv) | None \<Rightarrow> Throws index_out_of_bound)"
  using map_at_spec[OF wf, of k] by (simp add: map_at_def map_index_const_def)

lemma map_index_spec:
  assumes wf: "wf_map (cells h) m T" and ok: "heap_ok h" and ft: "fits h"
  shows "case find (\<lambda>e. equiv_key (cmp m) k (fst (snd e))) (inorder T) of
           Some (a, kv) \<Rightarrow> map_index h m this dflt k = Some (h, m, Returns (snd kv))
         | None \<Rightarrow>
             if avail h = 0 then map_index h m this dflt k = Some (h, m, Throws bad_alloc)
             else \<exists>h' m' T' xs ys.
                    map_index h m this dflt k = Some (h', m', Returns dflt) \<and>
                    wf_map (cells h') m' T' \<and> step_ok h T h' T' \<and>
                    inorder T = xs @ ys \<and> inorder T' = xs @ (nxt h, (k, dflt)) # ys \<and>
                    nodeCount m' = nodeCount m + 1 \<and> cmp m' = cmp m \<and>
                    dom (cells h') = insert (nxt h) (dom (cells h)) \<and>
                    nxt h' = nxt h + 1 \<and> avail h' = avail h - 1"
proof (cases "find (\<lambda>e. equiv_key (cmp m) k (fst (snd e))) (inorder T)")
  case (Some e)
  obtain a kv where e: "e = (a, kv)" by (cases e)
  have "(a, kv) \<in> set (inorder T)" using Some unfolding e by (auto simp: find_Some_iff)
  then obtain n where n: "cells h a = Some n" "val n = kv"
    using repr_val[of "cells h" None T a kv] wf by (auto simp: wf_map_def)
  show ?thesis using findNode_spec[OF wf, of k] Some n by (simp add: map_index_def e rd_def)
next
  case None
  note ms = map_insert_spec[OF wf ok ft, where v = "(k, dflt)" and this = this, simplified, unfolded None, simplified]
  have fn: "findNode h m k = Some None" using findNode_spec[OF wf, of k] None by simp
  show ?thesis
  proof (cases "avail h = 0")
    case True
    then show ?thesis using ms fn None by (simp add: map_index_def)
  next
    case False
    with ms obtain h' m' T' xs ys where r:
      "map_insert h m this (k, dflt) =
         Some (h', m', Returns (\<lparr>nodePtr = Some (nxt h), owner = Some this\<rparr>, True))"
      "wf_map (cells h') m' T'" "step_ok h T h' T'"
      "inorder T = xs @ ys" "inorder T' = xs @ (nxt h, (k, dflt)) # ys"
      "nodeCount m' = nodeCount m + 1" "cmp m' = cmp m"
      "dom (cells h') = insert (nxt h) (dom (cells h))"
      "nxt h' = nxt h + 1" "avail h' = avail h - 1"
      by auto
    have "(nxt h, (k, dflt)) \<in> set (inorder T')" unfolding r(5) by simp
    then obtain n where n: "cells h' (nxt h) = Some n" "val n = (k, dflt)"
      using repr_val[of "cells h'" None T' "nxt h" "(k, dflt)"] r(2) by (auto simp: wf_map_def)
    have mi: "map_index h m this dflt k = Some (h', m', Returns dflt)"
      using fn r(1) n by (simp add: map_index_def iter_deref_def rd_def)
    show ?thesis using None False
      apply simp
      apply (rule exI[of _ h'])
      apply (rule exI[of _ m'])
      apply (rule conjI[OF mi])
      apply (rule exI[of _ T'])
      using r by auto
  qed
qed

lemma map_assign_spec:
  assumes wf: "wf_map (cells h) m T" and wo: "wf_map (cells h) mo To"
    and dj: "addrs T \<inter> addrs To = {}" and ok: "heap_ok h" and ft: "fits h" and ne: "this \<noteq> that"
  shows "\<exists>h' m' res T'.
           map_assign h this m that mo = Some (h', m', res) \<and>
           wf_map (cells h') m' T' \<and> wf_map (cells h') mo To \<and>
           heap_ok h' \<and> room h' = room h \<and> nxt h \<le> nxt h' \<and> addrs T' \<subseteq> {a. nxt h \<le> a} \<and>
           (\<forall>a. a \<notin> addrs T \<and> a < nxt h \<longrightarrow> cells h' a = cells h a) \<and>
           (\<forall>a. a \<in> addrs T \<longrightarrow> cells h' a = None) \<and>
           (if tsize To \<le> avail h + tsize T
            then res = Returns () \<and> T' = clone_t (nxt h) To \<and> cmp m' = cmp mo \<and>
                 nodeCount m' = nodeCount mo
            else res = Throws bad_alloc \<and> T' = Lf \<and> m' = m\<lparr>root := None, nodeCount := 0, cmp := cmp mo\<rparr>)"
proof -
  define h1 where "h1 = h\<lparr>cells := cells h |` (- addrs T), avail := avail h + tsize T\<rparr>"
  define m1 where "m1 = m\<lparr>root := None, nodeCount := 0\<rparr>"
  have cl: "map_clear h m = Some (h1, m1)"
    using map_clear_spec[OF wf ok] by (simp add: h1_def m1_def)
  have rm1: "room h1 = room h"
    using map_clear_spec[OF wf ok] by (simp add: h1_def step_ok_def)
  have ro: "repr (cells h) None To" "root mo = rootp To" "swo (cmp mo)" "havl To" "bst (cmp mo) To"
    "nodeCount mo = of_nat (tsize To)"
    using wo by (auto simp: wf_map_def)
  have rT: "repr (cells h) None T" using wf by (simp add: wf_map_def)
  have r1: "repr (cells h1) None To"
    using ro(1) dj by (subst repr_cong[of To _ "cells h"]) (auto simp: h1_def restrict_map_def)
  have ok1: "heap_ok h1" using ok by (auto simp: heap_ok_def h1_def restrict_map_def domI split: if_splits)
  have nx1: "nxt h1 = nxt h" "avail h1 = avail h + tsize T" by (simp_all add: h1_def)
  have hg: "hgt To < 2147483648" using wf_small(2)[OF wo ok ft] by simp
  obtain h' res where r0:
    "cloneSubtree h1 (rootp To) None = Some (h', res) \<and> heap_ok h' \<and> nxt h1 \<le> nxt h' \<and>
     (\<forall>a. a < nxt h1 \<longrightarrow> cells h' a = cells h1 a) \<and>
     (if tsize To \<le> avail h1
      then res = Returns (rootp (clone_t (nxt h1) To)) \<and> repr (cells h') None (clone_t (nxt h1) To) \<and>
           nxt h' = nxt h1 + tsize To \<and> avail h' = avail h1 - tsize To
      else res = Throws bad_alloc) \<and>
     room h' = room h1"
    using cloneSubtree_repr[OF r1 ok1 hg, of None] by (elim exE) (rule that)
  have rm: "room h' = room h" using r0 rm1 by simp
  have r: "cloneSubtree h1 (rootp To) None = Some (h', res)" "heap_ok h'" "nxt h \<le> nxt h'"
    "\<forall>a. a < nxt h \<longrightarrow> cells h' a = cells h1 a"
    using r0 unfolding nx1 by blast+
  have r5: "if tsize To \<le> avail h + tsize T
      then res = Returns (rootp (clone_t (nxt h) To)) \<and> repr (cells h') None (clone_t (nxt h) To) \<and>
           nxt h' = nxt h + tsize To \<and> avail h' = avail h + tsize T - tsize To
      else res = Throws bad_alloc"
    using r0 unfolding nx1 by blast
  have lt: "\<And>a. a \<in> addrs To \<Longrightarrow> a < nxt h"
    using repr_dom[OF ro(1)] ok by (auto simp: heap_ok_def)
  have ltT: "\<And>a. a \<in> addrs T \<Longrightarrow> a < nxt h"
    using repr_dom[OF rT] ok by (auto simp: heap_ok_def)
  have r2: "repr (cells h') None To"
    using r1 r(4) lt by (subst repr_cong[of To _ "cells h1"]) auto
  have wo': "wf_map (cells h') mo To" using r2 ro by (simp add: wf_map_def)
  have fr: "\<forall>a. a \<notin> addrs T \<and> a < nxt h \<longrightarrow> cells h' a = cells h a"
    using r(4) by (auto simp: h1_def restrict_map_def)
  have gone: "\<forall>a. a \<in> addrs T \<longrightarrow> cells h' a = None"
    using r(4) ltT by (auto simp: h1_def restrict_map_def)
  show ?thesis
  proof (cases "tsize To \<le> avail h + tsize T")
    case True
    with r5 have t: "res = Returns (rootp (clone_t (nxt h) To))" "repr (cells h') None (clone_t (nxt h) To)"
      by auto
    define m' where "m' = m1\<lparr>cmp := cmp mo, root := rootp (clone_t (nxt h) To), nodeCount := nodeCount mo\<rparr>"
    have ma: "map_assign h this m that mo = Some (h', m', Returns ())"
      using ne cl r(1) by (simp add: map_assign_def ro(2) t(1) m'_def)
    have bs: "bst (cmp mo) (clone_t (nxt h) To)"
      using ro(5) by (simp add: bst_def keys_def entries_def entries_clone)
    have w: "wf_map (cells h') m' (clone_t (nxt h) To)"
      using t(2) bs ro(3) ro(4) ro(6) by (simp add: wf_map_def havl_clone m'_def)
    show ?thesis
      apply (rule exI[of _ h'])
      apply (rule exI[of _ m'])
      apply (rule exI[of _ "Returns ()"])
      apply (rule exI[of _ "clone_t (nxt h) To"])
      using ma w wo' r(2) r(3) fr gone True rm by (auto simp: addrs_clone m'_def)
  next
    case False
    with r5 have t: "res = Throws bad_alloc" by auto
    define m' where "m' = m1\<lparr>cmp := cmp mo\<rparr>"
    have ma: "map_assign h this m that mo = Some (h', m', Throws bad_alloc)"
      using ne cl r(1) by (simp add: map_assign_def ro(2) t m'_def)
    have w: "wf_map (cells h') m' Lf"
      using ro(3) by (simp add: wf_map_def m'_def m1_def bst_def keys_def entries_def)
    show ?thesis
      apply (rule exI[of _ h'])
      apply (rule exI[of _ m'])
      apply (rule exI[of _ "Throws bad_alloc"])
      apply (rule exI[of _ Lf])
      using ma w wo' r(2) r(3) fr gone False rm by (simp add: m'_def m1_def)
  qed
qed

subsection \<open>Every reachable world is well formed\<close>

lemma havl_avl: "havl t \<Longrightarrow> avl t \<and> hto t = hgt t"
  by (induction t) auto

lemma wf_map_cong: "(\<And>a. a \<in> addrs T \<Longrightarrow> cs' a = cs a) \<Longrightarrow> wf_map cs' m T = wf_map cs m T"
  using repr_cong[of T cs' cs None] by (simp add: wf_map_def)

lemma wf_map_addrs: "wf_map (cells h) m T \<Longrightarrow> heap_ok h \<Longrightarrow> a \<in> addrs T \<Longrightarrow> a < nxt h"
  using repr_dom[of "cells h" None T] unfolding wf_map_def heap_ok_def by blast

lemma wf_worldI:
  assumes "heap_ok (hp w)" and "fits (hp w)"
    and "\<And>i m. objs w i = Some m \<Longrightarrow> wf_map (cells (hp w)) m (ts i)"
    and "\<And>i j. i \<in> dom (objs w) \<Longrightarrow> j \<in> dom (objs w) \<Longrightarrow> i \<noteq> j \<Longrightarrow> addrs (ts i) \<inter> addrs (ts j) = {}"
  shows "wf_world w"
  unfolding wf_world_def using assms by blast

text \<open>A call on the object \<open>i\<close> that keeps to its own tree and to new nodes.\<close>

lemma wf_world_upd:
  assumes ts: "heap_ok (hp w)"
    "\<And>i m. objs w i = Some m \<Longrightarrow> wf_map (cells (hp w)) m (ts i)"
    "\<And>i j. i \<in> dom (objs w) \<Longrightarrow> j \<in> dom (objs w) \<Longrightarrow> i \<noteq> j \<Longrightarrow> addrs (ts i) \<inter> addrs (ts j) = {}"
    and o: "objs w i = Some m"
    and T': "wf_map (cells h') m' T'" "step_ok (hp w) (ts i) h' T'"
    and ft: "fits (hp w)"
  shows "wf_world \<lparr>hp = h', objs = (objs w)(i \<mapsto> m')\<rparr>"
proof -
  have ft': "fits h'" using T'(2) ft by (simp add: step_ok_def fits_def)
  have s: "heap_ok h'" "addrs T' \<subseteq> addrs (ts i) \<union> {a. nxt (hp w) \<le> a}"
    "\<And>a. a \<notin> addrs (ts i) \<Longrightarrow> a < nxt (hp w) \<Longrightarrow> cells h' a = cells (hp w) a"
    using T'(2) by (auto simp: step_ok_def)
  show ?thesis
  proof (rule wf_worldI[where ts = "ts(i := T')"])
    show "heap_ok (hp \<lparr>hp = h', objs = (objs w)(i \<mapsto> m')\<rparr>)" using s(1) by simp
  next
    show "fits (hp \<lparr>hp = h', objs = (objs w)(i \<mapsto> m')\<rparr>)" using ft' by simp
  next
    fix j mj assume j: "objs \<lparr>hp = h', objs = (objs w)(i \<mapsto> m')\<rparr> j = Some mj"
    show "wf_map (cells (hp \<lparr>hp = h', objs = (objs w)(i \<mapsto> m')\<rparr>)) mj ((ts(i := T')) j)"
    proof (cases "j = i")
      case True
      then show ?thesis using j T'(1) by simp
    next
      case False
      then have oj: "objs w j = Some mj" using j by simp
      have dj: "addrs (ts j) \<inter> addrs (ts i) = {}" using ts(3)[of j i] oj o False by auto
      have "wf_map (cells h') mj (ts j) = wf_map (cells (hp w)) mj (ts j)"
        by (rule wf_map_cong) (use dj wf_map_addrs[OF ts(2)[OF oj] ts(1)] s(3) in auto)
      then show ?thesis using ts(2)[OF oj] False by simp
    qed
  next
    fix j k
    assume a: "j \<in> dom (objs \<lparr>hp = h', objs = (objs w)(i \<mapsto> m')\<rparr>)"
      "k \<in> dom (objs \<lparr>hp = h', objs = (objs w)(i \<mapsto> m')\<rparr>)" "j \<noteq> k"
    have other: "addrs T' \<inter> addrs (ts x) = {}" if xd: "x \<in> dom (objs w)" and xi: "x \<noteq> i" for x
    proof -
      obtain mx where ox: "objs w x = Some mx" using xd by auto
      have "addrs (ts x) \<inter> addrs (ts i) = {}" using ts(3)[of x i] xd xi o by auto
      then show ?thesis using s(2) wf_map_addrs[OF ts(2)[OF ox] ts(1)] by fastforce
    qed
    show "addrs ((ts(i := T')) j) \<inter> addrs ((ts(i := T')) k) = {}"
    proof (cases "j = i")
      case True
      then show ?thesis using a other[of k] by (auto split: if_splits)
    next
      case False
      note ji = this
      show ?thesis
      proof (cases "k = i")
        case True
        then show ?thesis using a other[of j] ji by (auto split: if_splits)
      next
        case False
        then show ?thesis using a ji ts(3)[of j k] by (auto split: if_splits)
      qed
    qed
  qed
qed

lemma wf_world_step:
  assumes w: "wf_world w" and o: "objs w i = Some m"
    and st: "\<And>T. wf_map (cells (hp w)) m T \<Longrightarrow> \<exists>T'. wf_map (cells h') m' T' \<and> step_ok (hp w) T h' T'"
  shows "wf_world \<lparr>hp = h', objs = (objs w)(i \<mapsto> m')\<rparr>"
proof -
  obtain ts where ts: "heap_ok (hp w)"
    "\<And>i m. objs w i = Some m \<Longrightarrow> wf_map (cells (hp w)) m (ts i)"
    "\<And>i j. i \<in> dom (objs w) \<Longrightarrow> j \<in> dom (objs w) \<Longrightarrow> i \<noteq> j \<Longrightarrow> addrs (ts i) \<inter> addrs (ts j) = {}"
    using w unfolding wf_world_def by blast
  have ft: "fits (hp w)" using w by (simp add: wf_world_def)
  from st[OF ts(2)[OF o]] obtain T' where T': "wf_map (cells h') m' T'" "step_ok (hp w) (ts i) h' T'"
    by blast
  show ?thesis by (rule wf_world_upd[where ts = ts, OF ts o T' ft])
qed

text \<open>The same, for a call that also reads the tree of another object \<open>j\<close>.\<close>

lemma wf_world_step2:
  assumes w: "wf_world w" and o: "objs w i = Some m" and oj: "objs w j = Some mo" and ne: "i \<noteq> j"
    and st: "\<And>T To. wf_map (cells (hp w)) m T \<Longrightarrow> wf_map (cells (hp w)) mo To \<Longrightarrow>
               addrs T \<inter> addrs To = {} \<Longrightarrow> \<exists>T'. wf_map (cells h') m' T' \<and> step_ok (hp w) T h' T'"
  shows "wf_world \<lparr>hp = h', objs = (objs w)(i \<mapsto> m')\<rparr>"
proof -
  obtain ts where ts: "heap_ok (hp w)"
    "\<And>i m. objs w i = Some m \<Longrightarrow> wf_map (cells (hp w)) m (ts i)"
    "\<And>i j. i \<in> dom (objs w) \<Longrightarrow> j \<in> dom (objs w) \<Longrightarrow> i \<noteq> j \<Longrightarrow> addrs (ts i) \<inter> addrs (ts j) = {}"
    using w unfolding wf_world_def by blast
  have ft: "fits (hp w)" using w by (simp add: wf_world_def)
  have dj: "addrs (ts i) \<inter> addrs (ts j) = {}" using ts(3)[of i j] o oj ne by auto
  from st[OF ts(2)[OF o] ts(2)[OF oj] dj] obtain T' where
    T': "wf_map (cells h') m' T'" "step_ok (hp w) (ts i) h' T'"
    by blast
  show ?thesis by (rule wf_world_upd[where ts = ts, OF ts o T' ft])
qed

lemma wf_world_ok: "wf_world w \<Longrightarrow> heap_ok (hp w)"
  by (simp add: wf_world_def)

lemma wf_world_fits: "wf_world w \<Longrightarrow> fits (hp w)"
  by (simp add: wf_world_def)

lemma wf_world_obj: "wf_world w \<Longrightarrow> objs w i = Some m \<Longrightarrow> \<exists>T. wf_map (cells (hp w)) m T"
  unfolding wf_world_def by blast

text \<open>A new object whose tree consists of new nodes.\<close>

lemma wf_world_new:
  assumes w: "wf_world w" and o: "objs w i = None"
    and T': "wf_map (cells h') m' T'" and ok: "heap_ok h'" and ft': "fits h'"
    and nw: "addrs T' \<subseteq> {a. nxt (hp w) \<le> a}"
    and fr: "\<And>a. a < nxt (hp w) \<Longrightarrow> cells h' a = cells (hp w) a"
  shows "wf_world \<lparr>hp = h', objs = (objs w)(i \<mapsto> m')\<rparr>"
proof -
  obtain ts where ts: "heap_ok (hp w)"
    "\<And>i m. objs w i = Some m \<Longrightarrow> wf_map (cells (hp w)) m (ts i)"
    "\<And>i j. i \<in> dom (objs w) \<Longrightarrow> j \<in> dom (objs w) \<Longrightarrow> i \<noteq> j \<Longrightarrow> addrs (ts i) \<inter> addrs (ts j) = {}"
    using w unfolding wf_world_def by blast
  have ft: "fits (hp w)" using w by (simp add: wf_world_def)
  have other: "addrs T' \<inter> addrs (ts x) = {}" if xd: "x \<in> dom (objs w)" for x
  proof -
    obtain mx where ox: "objs w x = Some mx" using xd by auto
    show ?thesis using nw wf_map_addrs[OF ts(2)[OF ox] ts(1)] by fastforce
  qed
  show ?thesis
  proof (rule wf_worldI[where ts = "ts(i := T')"])
    show "heap_ok (hp \<lparr>hp = h', objs = (objs w)(i \<mapsto> m')\<rparr>)" using ok by simp
  next
    show "fits (hp \<lparr>hp = h', objs = (objs w)(i \<mapsto> m')\<rparr>)" using ft' by simp
  next
    fix j mj assume j: "objs \<lparr>hp = h', objs = (objs w)(i \<mapsto> m')\<rparr> j = Some mj"
    show "wf_map (cells (hp \<lparr>hp = h', objs = (objs w)(i \<mapsto> m')\<rparr>)) mj ((ts(i := T')) j)"
    proof (cases "j = i")
      case True
      then show ?thesis using j T' by simp
    next
      case False
      then have oj: "objs w j = Some mj" using j by simp
      have "wf_map (cells h') mj (ts j) = wf_map (cells (hp w)) mj (ts j)"
        by (rule wf_map_cong) (use wf_map_addrs[OF ts(2)[OF oj] ts(1)] fr in auto)
      then show ?thesis using ts(2)[OF oj] False by simp
    qed
  next
    fix j k
    assume a: "j \<in> dom (objs \<lparr>hp = h', objs = (objs w)(i \<mapsto> m')\<rparr>)"
      "k \<in> dom (objs \<lparr>hp = h', objs = (objs w)(i \<mapsto> m')\<rparr>)" "j \<noteq> k"
    show "addrs ((ts(i := T')) j) \<inter> addrs ((ts(i := T')) k) = {}"
    proof (cases "j = i")
      case True
      then show ?thesis using a other[of k] by (auto split: if_splits)
    next
      case False
      note ji = this
      show ?thesis
      proof (cases "k = i")
        case True
        then show ?thesis using a other[of j] ji by (auto split: if_splits)
      next
        case False
        then show ?thesis using a ji ts(3)[of j k] by (auto split: if_splits)
      qed
    qed
  qed
qed

text \<open>An object goes away.\<close>

lemma wf_world_remove:
  assumes w: "wf_world \<lparr>hp = h, objs = os\<rparr>"
  shows "wf_world \<lparr>hp = h, objs = os(i := None)\<rparr>"
proof -
  obtain ts where ts: "heap_ok h" "fits h"
    "\<And>i m. os i = Some m \<Longrightarrow> wf_map (cells h) m (ts i)"
    "\<And>i j. i \<in> dom os \<Longrightarrow> j \<in> dom os \<Longrightarrow> i \<noteq> j \<Longrightarrow> addrs (ts i) \<inter> addrs (ts j) = {}"
    using w unfolding wf_world_def world.simps by blast
  show ?thesis
    by (rule wf_worldI[where ts = ts]) (use ts in \<open>auto split: if_splits\<close>)
qed

text \<open>A call that changes no cell below the allocation pointer and no object.\<close>

lemma wf_world_heap:
  assumes w: "wf_world w" and ok: "heap_ok h'" and ft': "fits h'"
    and fr: "\<And>a. a < nxt (hp w) \<Longrightarrow> cells h' a = cells (hp w) a"
  shows "wf_world \<lparr>hp = h', objs = objs w\<rparr>"
proof -
  obtain ts where ts: "heap_ok (hp w)"
    "\<And>i m. objs w i = Some m \<Longrightarrow> wf_map (cells (hp w)) m (ts i)"
    "\<And>i j. i \<in> dom (objs w) \<Longrightarrow> j \<in> dom (objs w) \<Longrightarrow> i \<noteq> j \<Longrightarrow> addrs (ts i) \<inter> addrs (ts j) = {}"
    using w unfolding wf_world_def by blast
  have ft: "fits (hp w)" using w by (simp add: wf_world_def)
  show ?thesis
  proof (rule wf_worldI[where ts = ts])
    show "heap_ok (hp \<lparr>hp = h', objs = objs w\<rparr>)" using ok by simp
  next
    show "fits (hp \<lparr>hp = h', objs = objs w\<rparr>)" using ft' by simp
  next
    fix j mj assume "objs \<lparr>hp = h', objs = objs w\<rparr> j = Some mj"
    then have oj: "objs w j = Some mj" by simp
    have "wf_map (cells h') mj (ts j) = wf_map (cells (hp w)) mj (ts j)"
      by (rule wf_map_cong) (use wf_map_addrs[OF ts(2)[OF oj] ts(1)] fr in auto)
    then show "wf_map (cells (hp \<lparr>hp = h', objs = objs w\<rparr>)) mj (ts j)" using ts(2)[OF oj] by simp
  next
    fix j k
    assume "j \<in> dom (objs \<lparr>hp = h', objs = objs w\<rparr>)" "k \<in> dom (objs \<lparr>hp = h', objs = objs w\<rparr>)" "j \<noteq> k"
    then show "addrs (ts j) \<inter> addrs (ts k) = {}" using ts(3)[of j k] by simp
  qed
qed

subsection \<open>The calls keep the world well formed\<close>

lemma map_insert_step:
  assumes wf: "wf_map (cells h) m T" and ok: "heap_ok h" and ft: "fits h"
    and r: "map_insert h m this v = Some (h', m', res)"
  shows "\<exists>T'. wf_map (cells h') m' T' \<and> step_ok h T h' T'"
proof (cases "find (\<lambda>e. equiv_key (cmp m) (fst v) (fst (snd e))) (inorder T)")
  case (Some e)
  then have "h' = h \<and> m' = m"
    using map_insert_spec[OF wf ok ft, where v = v and this = this] r by (cases e) simp
  then show ?thesis using wf step_ok_refl[OF ok] by blast
next
  case None
  note ms = map_insert_spec[OF wf ok ft, where v = v and this = this, unfolded None, simplified]
  show ?thesis
  proof (cases "avail h = 0")
    case True
    then have "h' = h \<and> m' = m" using ms r by simp
    then show ?thesis using wf step_ok_refl[OF ok] by blast
  next
    case False
    then show ?thesis using ms r by auto
  qed
qed

lemma map_index_step:
  assumes wf: "wf_map (cells h) m T" and ok: "heap_ok h" and ft: "fits h"
    and r: "map_index h m this dflt k = Some (h', m', res)"
  shows "\<exists>T'. wf_map (cells h') m' T' \<and> step_ok h T h' T'"
proof (cases "find (\<lambda>e. equiv_key (cmp m) k (fst (snd e))) (inorder T)")
  case (Some e)
  then have "h' = h \<and> m' = m"
    using map_index_spec[OF wf ok ft, where k = k and this = this and dflt = dflt] r by (cases e) simp
  then show ?thesis using wf step_ok_refl[OF ok] by blast
next
  case None
  note ms = map_index_spec[OF wf ok ft, where k = k and this = this and dflt = dflt, unfolded None, simplified]
  show ?thesis
  proof (cases "avail h = 0")
    case True
    then have "h' = h \<and> m' = m" using ms r by simp
    then show ?thesis using wf step_ok_refl[OF ok] by blast
  next
    case False
    then show ?thesis using ms r by auto
  qed
qed

lemma map_find_spec:
  assumes wf: "wf_map (cells h) m T"
  shows "map_find h m this k =
           Some \<lparr>nodePtr = map_option fst (find (\<lambda>e. equiv_key (cmp m) k (fst (snd e))) (inorder T)),
                  owner = Some this\<rparr>"
  using findNode_spec[OF wf, of k] by (simp add: map_find_def)

lemma map_find_node:
  assumes wf: "wf_map (cells h) m T" and f: "map_find h m this k = Some pos" and n: "nodePtr pos = Some z"
  shows "z \<in> addrs T \<and> owner pos = Some this"
proof -
  from f n obtain e where e: "find (\<lambda>e. equiv_key (cmp m) k (fst (snd e))) (inorder T) = Some e" "fst e = z"
    unfolding map_find_spec[OF wf] by auto
  then have "e \<in> set (inorder T)" by (auto simp: find_Some_iff)
  then have "z \<in> addrs T" using e(2) unfolding addrs_inorder by auto
  then show ?thesis using f unfolding map_find_spec[OF wf] by auto
qed

lemma map_erase_step:
  assumes wf: "wf_map (cells h) m T" and ok: "heap_ok h" and ft: "fits h"
    and f: "map_find h m this k = Some pos"
    and r: "map_erase h m this pos = Some (h', m', res)"
  shows "\<exists>T'. wf_map (cells h') m' T' \<and> step_ok h T h' T'"
proof (cases "nodePtr pos")
  case None
  then have "h' = h \<and> m' = m" using r by (simp add: map_erase_def split: if_splits)
  then show ?thesis using wf step_ok_refl[OF ok] by blast
next
  case (Some z)
  have zin: "z \<in> addrs T" and ow: "owner pos = Some this" using map_find_node[OF wf f Some] by auto
  have p: "pos = \<lparr>nodePtr = Some z, owner = Some this\<rparr>" using Some ow by (cases pos) simp
  obtain h2 m2 T2 where e:
    "map_erase h m this \<lparr>nodePtr = Some z, owner = Some this\<rparr> = Some (h2, m2, Returns ())"
    "wf_map (cells h2) m2 T2" "step_ok h T h2 T2"
    using map_erase_spec[OF wf ok ft zin, of this] by blast
  then show ?thesis using r unfolding p by auto
qed

lemma map_clear_step:
  assumes wf: "wf_map (cells h) m T" and ok: "heap_ok h" and r: "map_clear h m = Some (h', m')"
  shows "wf_map (cells h') m' Lf \<and> step_ok h T h' Lf"
  using map_clear_spec[OF wf ok] r by auto

lemma assign_second_step:
  assumes wf: "wf_map (cells h) m T" and ok: "heap_ok h"
    and f: "map_find h m this k = Some pos" and n: "nodePtr pos \<noteq> None"
    and r: "assign_second h (nodePtr pos) x = Some h'"
  shows "\<exists>T'. wf_map (cells h') m T' \<and> step_ok h T h' T'"
proof -
  from n obtain z where z: "nodePtr pos = Some z" by auto
  have zin: "z \<in> addrs T" using map_find_node[OF wf f z] by auto
  obtain h2 T2 where e: "assign_second h (Some z) x = Some h2" "wf_map (cells h2) m T2" "step_ok h T h2 T2"
    using assign_second_spec[OF wf ok zin, of x] by blast
  then show ?thesis using r unfolding z by auto
qed

lemma map_assign_step:
  assumes wf: "wf_map (cells h) m T" and wo: "wf_map (cells h) mo To"
    and dj: "addrs T \<inter> addrs To = {}" and ok: "heap_ok h" and ft: "fits h" and ne: "this \<noteq> that"
    and r: "map_assign h this m that mo = Some (h', m', res)"
  shows "\<exists>T'. wf_map (cells h') m' T' \<and> step_ok h T h' T'"
proof -
  obtain h2 m2 res2 T2 where e:
    "map_assign h this m that mo = Some (h2, m2, res2)" "wf_map (cells h2) m2 T2"
    "heap_ok h2" "nxt h \<le> nxt h2" "addrs T2 \<subseteq> {a. nxt h \<le> a}"
    "\<forall>a. a \<notin> addrs T \<and> a < nxt h \<longrightarrow> cells h2 a = cells h a"
    "room h2 = room h"
    using map_assign_spec[OF wf wo dj ok ft ne] by blast
  have "step_ok h T h2 T2" using e(3-7) by (auto simp: step_ok_def)
  then show ?thesis using e(1,2) r by auto
qed

lemma reach_wf: "reach w \<Longrightarrow> wf_world w"
proof (induction rule: reach.induct)
  case (initial n)
  then show ?case by (intro wf_worldI[where ts = "\<lambda>i. Lf"]) (auto simp: heap_ok_def fits_def room_def)
next
  case (set_budget w n)
  have eq: "w\<lparr>hp := (hp w)\<lparr>avail := n\<rparr>\<rparr> = \<lparr>hp = (hp w)\<lparr>avail := n\<rparr>, objs = objs w\<rparr>"
    by simp
  show ?case unfolding eq
    by (rule wf_world_heap[OF set_budget.IH _ set_budget.hyps(2)])
       (use wf_world_ok[OF set_budget.IH] in \<open>auto simp: heap_ok_def\<close>)
next
  case (construct w i c)
  have eq: "w\<lparr>objs := (objs w)(i \<mapsto> map_ctor c)\<rparr> = \<lparr>hp = hp w, objs = (objs w)(i \<mapsto> map_ctor c)\<rparr>"
    by simp
  show ?case unfolding eq
    by (rule wf_world_new[OF construct.IH construct.hyps(2), where T' = Lf])
       (use construct.hyps(3) wf_world_ok[OF construct.IH] wf_world_fits[OF construct.IH] in
         \<open>auto simp: wf_map_def map_ctor_def bst_def keys_def entries_def\<close>)
next
  case (copy_construct w j mo i h' m')
  from wf_world_obj[OF copy_construct.IH copy_construct.hyps(2)] obtain T where
    T: "wf_map (cells (hp w)) mo T" by blast
  note sp = map_copy_spec[OF T wf_world_ok[OF copy_construct.IH] wf_world_fits[OF copy_construct.IH]]
  have le: "tsize T \<le> avail (hp w)" using sp copy_construct.hyps(4) by (auto split: if_splits)
  have f: "heap_ok h'" "\<And>a. a < nxt (hp w) \<Longrightarrow> cells h' a = cells (hp w) a"
    "wf_map (cells h') m' (clone_t (nxt (hp w)) T)" "fits h'"
    using sp copy_construct.hyps(4) le by auto
  show ?case
    by (rule wf_world_new[OF copy_construct.IH copy_construct.hyps(3) f(3) f(1) f(4) _ f(2)])
       (auto simp: addrs_clone)
next
  case (copy_construct_throws w j mo h' e)
  from wf_world_obj[OF copy_construct_throws.IH copy_construct_throws.hyps(2)] obtain T where
    T: "wf_map (cells (hp w)) mo T" by blast
  note sp = map_copy_spec[OF T wf_world_ok[OF copy_construct_throws.IH] wf_world_fits[OF copy_construct_throws.IH]]
  have f: "heap_ok h'" "fits h'" "\<And>a. a < nxt (hp w) \<Longrightarrow> cells h' a = cells (hp w) a"
    using sp copy_construct_throws.hyps(3) by auto
  show ?case by (rule wf_world_heap[OF copy_construct_throws.IH f])
next
  case (destroy w i m h')
  from destroy.hyps(3) obtain m' where c: "map_clear (hp w) m = Some (h', m')"
    by (auto simp: map_dtor_def split: bind_splits)
  have "wf_world \<lparr>hp = h', objs = (objs w)(i \<mapsto> m')\<rparr>"
    by (rule wf_world_step[OF destroy.IH destroy.hyps(2)])
       (use map_clear_step[OF _ wf_world_ok[OF destroy.IH] c] in blast)
  from wf_world_remove[OF this, of i] show ?case by simp
next
  case (assignment w i m j mo h' m' r)
  show ?case
  proof (cases "i = j")
    case True
    then have "h' = hp w \<and> m' = m" using assignment.hyps(4) by (simp add: map_assign_def)
    moreover have "(objs w)(i \<mapsto> m) = objs w" using assignment.hyps(2) by (rule map_upd_triv)
    ultimately have "\<lparr>hp = h', objs = (objs w)(i \<mapsto> m')\<rparr> = w" by simp
    then show ?thesis using assignment.IH by simp
  next
    case False
    show ?thesis
      by (rule wf_world_step2[OF assignment.IH assignment.hyps(2) assignment.hyps(3) False])
         (rule map_assign_step[OF _ _ _ wf_world_ok[OF assignment.IH] wf_world_fits[OF assignment.IH] False
            assignment.hyps(4)])
  qed
next
  case (clearing w i m h' m')
  show ?case
    by (rule wf_world_step[OF clearing.IH clearing.hyps(2)])
       (use map_clear_step[OF _ wf_world_ok[OF clearing.IH] clearing.hyps(3)] in blast)
next
  case (insertion w i m v h' m' ri)
  show ?case
    by (rule wf_world_step[OF insertion.IH insertion.hyps(2)])
       (rule map_insert_step[OF _ wf_world_ok[OF insertion.IH] wf_world_fits[OF insertion.IH] insertion.hyps(3)])
next
  case (indexing w i m dflt k h' m' rv)
  show ?case
    by (rule wf_world_step[OF indexing.IH indexing.hyps(2)])
       (rule map_index_step[OF _ wf_world_ok[OF indexing.IH] wf_world_fits[OF indexing.IH] indexing.hyps(3)])
next
  case (erasure w i m k pos h' m' r)
  show ?case
    by (rule wf_world_step[OF erasure.IH erasure.hyps(2)])
       (rule map_erase_step[OF _ wf_world_ok[OF erasure.IH] wf_world_fits[OF erasure.IH] erasure.hyps(3)
          erasure.hyps(4)])
next
  case (store_value w i m k pos x h')
  have "wf_world \<lparr>hp = h', objs = (objs w)(i \<mapsto> m)\<rparr>"
    by (rule wf_world_step[OF store_value.IH store_value.hyps(2)])
       (rule assign_second_step[OF _ wf_world_ok[OF store_value.IH] store_value.hyps(3)
          store_value.hyps(4) store_value.hyps(5)])
  moreover have "(objs w)(i \<mapsto> m) = objs w" using store_value.hyps(2) by (rule map_upd_triv)
  ultimately show ?case by simp
qed

lemma bst_ordered: "bst c t \<Longrightarrow> ordered c t"
  by (induction t) (auto simp: bst_def keys_def entries_def sorted_wrt_append)

lemma reach_tree:
  assumes "reach w" "objs w i = Some m"
  shows "\<exists>T. wf_map (cells (hp w)) m T"
  using wf_world_obj[OF reach_wf[OF assms(1)] assms(2)] .

subsection \<open>Present and absent keys\<close>

lemma find_present:
  assumes wf: "wf_map cs m T" and x: "(a, kv) \<in> set (inorder T)" "equiv_key (cmp m) k (fst kv)"
  shows "find (\<lambda>e. equiv_key (cmp m) k (fst (snd e))) (inorder T) = Some (a, kv)"
proof -
  have s: "swo (cmp m)" and b: "bst (cmp m) T" using wf by (auto simp: wf_map_def)
  show ?thesis by (rule find_equiv[OF s b[unfolded bst_inorder] x(1)]) (simp add: x(2))
qed

lemma find_absent:
  assumes "\<forall>e \<in> set (entries T). \<not> equiv_key c k (fst e)"
  shows "find (\<lambda>e. equiv_key c k (fst (snd e))) (inorder T) = None"
  using assms by (auto simp: find_None_iff entries_def)

lemma step_ok_frame:
  assumes "step_ok h T h' T'" "heap_ok h"
  shows "\<forall>a. a \<in> dom (cells h) \<and> a \<notin> addrs T \<longrightarrow> cells h' a = cells h a"
  using assms by (auto simp: step_ok_def heap_ok_def)

lemma heap_ok_fresh: "heap_ok h \<Longrightarrow> nxt h \<notin> dom (cells h)"
  by (auto simp: heap_ok_def)

lemma sorted_last:
  "sorted_wrt c (map f es) \<Longrightarrow> es \<noteq> [] \<Longrightarrow> \<forall>e \<in> set (butlast es). c (f e) (f (last es))"
proof -
  assume s: "sorted_wrt c (map f es)" and ne: "es \<noteq> []"
  have "es = butlast es @ [last es]" using ne by simp
  then have "sorted_wrt c (map f (butlast es @ [last es]))" using s by simp
  then show ?thesis unfolding map_append sorted_wrt_append by simp
qed

subsection \<open>Calls on one map and the tree of another\<close>

lemma step_ok_other:
  assumes st: "step_ok h T h' T'" and ok: "heap_ok h"
    and wo: "wf_map (cells h) m2 T2" and dj: "addrs T \<inter> addrs T2 = {}"
  shows "wf_map (cells h') m2 T2"
proof -
  have "wf_map (cells h') m2 T2 = wf_map (cells h) m2 T2"
    by (rule wf_map_cong) (use st dj wf_map_addrs[OF wo ok] in \<open>auto simp: step_ok_def\<close>)
  then show ?thesis using wo by simp
qed

lemma map_insert_total:
  assumes wf: "wf_map (cells h) m T" and ok: "heap_ok h" and ft: "fits h"
  shows "\<exists>h' m' res T'. map_insert h m this v = Some (h', m', res) \<and>
           wf_map (cells h') m' T' \<and> step_ok h T h' T'"
proof (cases "find (\<lambda>e. equiv_key (cmp m) (fst v) (fst (snd e))) (inorder T)")
  case (Some e)
  then have "map_insert h m this v =
      Some (h, m, Returns (\<lparr>nodePtr = Some (fst e), owner = Some this\<rparr>, False))"
    using map_insert_spec[OF wf ok ft, where v = v and this = this] by (cases e) simp
  then show ?thesis using wf step_ok_refl[OF ok] by blast
next
  case None
  note ms = map_insert_spec[OF wf ok ft, where v = v and this = this, unfolded None, simplified]
  show ?thesis
  proof (cases "avail h = 0")
    case True
    then have "map_insert h m this v = Some (h, m, Throws bad_alloc)" using ms by simp
    then show ?thesis using wf step_ok_refl[OF ok] by blast
  next
    case False
    then show ?thesis using ms by auto
  qed
qed

lemma map_index_total:
  assumes wf: "wf_map (cells h) m T" and ok: "heap_ok h" and ft: "fits h"
  shows "\<exists>h' m' res T'. map_index h m this dflt k = Some (h', m', res) \<and>
           wf_map (cells h') m' T' \<and> step_ok h T h' T'"
proof (cases "find (\<lambda>e. equiv_key (cmp m) k (fst (snd e))) (inorder T)")
  case (Some e)
  then have "map_index h m this dflt k = Some (h, m, Returns (snd (snd e)))"
    using map_index_spec[OF wf ok ft, where k = k and this = this and dflt = dflt] by (cases e) simp
  then show ?thesis using wf step_ok_refl[OF ok] by blast
next
  case None
  note ms = map_index_spec[OF wf ok ft, where k = k and this = this and dflt = dflt, unfolded None, simplified]
  show ?thesis
  proof (cases "avail h = 0")
    case True
    then have "map_index h m this dflt k = Some (h, m, Throws bad_alloc)" using ms by simp
    then show ?thesis using wf step_ok_refl[OF ok] by blast
  next
    case False
    then show ?thesis using ms by auto
  qed
qed

lemma entries_clone_t [simp]: "entries (clone_t n t) = entries t"
  by (simp add: entries_def entries_clone)

subsection \<open>The small world\<close>

lemmas exec_simps = map_insert_def insert_loop.simps new_Node_def rebalanceUp.simps
  rebalanceAt_def update_def balance_def heightOf_def rotateLeft_def rotateRight_def relink_def
  rd_def wr_def keyEq_def int32_def

lemma swo_less: "swo ((<) :: nat \<Rightarrow> nat \<Rightarrow> bool)"
  by (auto simp: swo_def)

lemma three_wf: "wf_map (cells three_heap) three_map three_tree"
  by (simp add: wf_map_def three_heap_def three_cells_def three_map_def three_tree_def
      bst_def keys_def entries_def swo_less)

lemma three_ok: "heap_ok three_heap"
  by (auto simp: heap_ok_def three_heap_def three_cells_def split: if_splits)

lemma three_fits: "fits three_heap"
  by (simp add: fits_def room_def three_heap_def three_cells_def)

lemma two_fits: "fits two_heap"
  by (simp add: fits_def room_def two_heap_def three_cells_def)

lemma two_wf_three: "wf_map (cells two_heap) three_map three_tree"
  by (simp add: wf_map_def two_heap_def three_cells_def three_map_def three_tree_def
      bst_def keys_def entries_def swo_less)

lemma two_wf_one: "wf_map (cells two_heap) one_map one_tree"
  by (simp add: wf_map_def two_heap_def three_cells_def one_map_def one_tree_def
      bst_def keys_def entries_def swo_less)

lemma two_ok: "heap_ok two_heap"
  by (auto simp: heap_ok_def two_heap_def three_cells_def split: if_splits)

lemma two_disjoint: "addrs one_tree \<inter> addrs three_tree = {}"
  by (simp add: one_tree_def three_tree_def)

lemma reach_insert1:
  "reach \<lparr>hp = h, objs = [i \<mapsto> m]\<rparr> \<Longrightarrow> map_insert h m i v = Some (h', m', r) \<Longrightarrow>
   reach \<lparr>hp = h', objs = [i \<mapsto> m']\<rparr>"
  using reach.insertion[of "\<lparr>hp = h, objs = [i \<mapsto> m]\<rparr>" i m v h' m' r] by simp

lemma three_reach: "reach three_world"
proof -
  let ?n = "\<lambda>k v l r p c. \<lparr>val = (k :: nat, v :: nat), left = l, right = r, parent = p, height = c\<rparr>"
  let ?m = "\<lambda>r c. \<lparr>root = r, nodeCount = c, cmp = ((<) :: nat \<Rightarrow> nat \<Rightarrow> bool)\<rparr>"
  have 0: "reach \<lparr>hp = \<lparr>cells = (Map.empty :: addr \<rightharpoonup> (nat, nat) Node), nxt = 0, avail = 8\<rparr>,
                   objs = (Map.empty :: addr \<rightharpoonup> nat mapobj)\<rparr>"
    by (rule reach.initial) simp
  have 1: "reach \<lparr>hp = \<lparr>cells = (Map.empty :: addr \<rightharpoonup> (nat, nat) Node), nxt = 0, avail = 8\<rparr>,
                   objs = [0 \<mapsto> ?m None 0]\<rparr>"
    using reach.construct[OF 0, of 0 "(<)"] swo_less by (simp add: map_ctor_def)
  have 2: "reach \<lparr>hp = \<lparr>cells = [0 \<mapsto> ?n 1 10 None None None 1], nxt = 1, avail = 7\<rparr>,
                   objs = [0 \<mapsto> ?m (Some 0) 1]\<rparr>"
    by (rule reach_insert1[OF 1, where v = "(1, 10)"
          and r = "Returns (\<lparr>nodePtr = Some 0, owner = Some 0\<rparr>, True)"])
       (simp add: exec_simps cong: bind_weak_cong)
  have 3: "reach \<lparr>hp = \<lparr>cells = [0 \<mapsto> ?n 1 10 None (Some 1) None 2, 1 \<mapsto> ?n 2 20 None None (Some 0) 1],
                          nxt = 2, avail = 6\<rparr>,
                   objs = [0 \<mapsto> ?m (Some 0) 2]\<rparr>"
    by (rule reach_insert1[OF 2, where v = "(2, 20)"
          and r = "Returns (\<lparr>nodePtr = Some 1, owner = Some 0\<rparr>, True)"])
       (simp add: exec_simps fun_eq_iff cong: bind_weak_cong)
  have 4: "reach \<lparr>hp = three_heap, objs = [0 \<mapsto> three_map]\<rparr>"
    by (rule reach_insert1[OF 3, where v = "(3, 30)"
          and r = "Returns (\<lparr>nodePtr = Some 2, owner = Some 0\<rparr>, True)"])
       (simp add: exec_simps three_heap_def three_map_def three_cells_def fun_eq_iff cong: bind_weak_cong)
  then show ?thesis by (simp add: three_world_def)
qed

lemmas iter_simps = map_begin_def map_end_def minNode_def minNode_loop.simps traverse.simps iter_eq_def
  iter_deref_def iter_inc_def nextNode_def nextNode_loop.simps rd_def

lemmas assign_simps = map_assign_def map_clear_def destroySubtree.simps cloneSubtree.simps delete_Node_def
  new_Node_def update_def heightOf_def rd_def wr_def int32_def

lemmas at_simps = map_at_def findNode_def findNode_loop.simps keyEq_def rd_def

section \<open>Self-assignment\<close>

text \<open>
  Claim C9. Self-assignment is a no-op: when the source of \<^verbatim>\<open>operator=\<close> is the object
  itself (\<open>that = this\<close>), the call returns at once; the heap (so every node, its links and
  its entry) and the members of the map (the root and the size among them) are the ones
  it was called with, and no node is deleted.
\<close>

theorem self_assign_noop:
  "map_assign h this m this other = Some (h, m, Returns ())"
  by (simp add: map_assign_def)

section \<open>Iterators without a node or without an owner\<close>

text \<open>
  Incrementing, decrementing and dereferencing by \<^verbatim>\<open>operator*\<close> a default-constructed
  iterator (no node, no owner) each throw \<^verbatim>\<open>invalid_iterator\<close>; so do the increment and the
  decrement of any iterator without an owner, in both the prefix and the postfix form,
  and \<^verbatim>\<open>operator*\<close> on any iterator without a node, \<^verbatim>\<open>end()\<close> included. None of these calls
  reads the heap or the map.
\<close>

lemma ownerless_iterator_throws:
  "iter_inc w \<lparr>nodePtr = None, owner = None\<rparr> = Some (Throws invalid_iterator) \<and>
   iter_dec w \<lparr>nodePtr = None, owner = None\<rparr> = Some (Throws invalid_iterator) \<and>
   iter_deref h \<lparr>nodePtr = None, owner = None\<rparr> = Some (Throws invalid_iterator) \<and>
   iter_inc w \<lparr>nodePtr = n, owner = None\<rparr> = Some (Throws invalid_iterator) \<and>
   iter_dec w \<lparr>nodePtr = n, owner = None\<rparr> = Some (Throws invalid_iterator) \<and>
   iter_post_inc w \<lparr>nodePtr = n, owner = None\<rparr> = Some (Throws invalid_iterator) \<and>
   iter_post_dec w \<lparr>nodePtr = n, owner = None\<rparr> = Some (Throws invalid_iterator) \<and>
   iter_deref h \<lparr>nodePtr = None, owner = ow\<rparr> = Some (Throws invalid_iterator) \<and>
   iter_deref h (map_end this) = Some (Throws invalid_iterator)"
  by (simp add: iter_inc_def iter_dec_def iter_deref_def iter_post_inc_def iter_post_dec_def map_end_def)

text \<open>
  Claim C10 says that every dereference of an iterator without a node raises
  \<^verbatim>\<open>invalid_iterator\<close>. The code has a second dereference, \<^verbatim>\<open>operator->\<close>, and there it does not:
  on a default-constructed iterator, on any iterator without a node and on \<^verbatim>\<open>end()\<close> the
  exception of \<^verbatim>\<open>operator*\<close> meets \<^verbatim>\<open>noexcept\<close> and the program terminates.
\<close>

theorem arrow_without_node_terminates:
  "iter_arrow h \<lparr>nodePtr = None, owner = None\<rparr> = Some Terminates \<and>
   iter_arrow h \<lparr>nodePtr = None, owner = ow\<rparr> = Some Terminates \<and>
   iter_arrow h (map_end this) = Some Terminates"
  by (simp add: iter_arrow_def iter_deref_def map_end_def)

section \<open>The AVL balance in every reachable world\<close>

text \<open>Claim C1. In every world reached by the public members (construction, copy
  construction, assignment, \<open>insert\<close>, \<open>erase\<close>, \<open>clear\<close>, \<open>operator[]\<close>, destruction, a store
  through a returned reference), the nodes linked from the \<open>root\<close> of every map form a tree
  \<open>T\<close> in which, at every node, the heights of the two subtrees differ by at most one and
  the cached \<open>height\<close> is one more than the greater of them, an absent child counting 0.\<close>

theorem reachable_avl:
  "reach w \<Longrightarrow> objs w i = Some m \<Longrightarrow>
   \<exists>T. root m = rootp T \<and> repr (cells (hp w)) None T \<and> avl T"
proof -
  assume "reach w" "objs w i = Some m"
  then obtain T where "wf_map (cells (hp w)) m T" using reach_tree by blast
  then have "root m = rootp T \<and> repr (cells (hp w)) None T \<and> avl T"
    using havl_avl[of T] by (simp add: wf_map_def)
  then show ?thesis by blast
qed

theorem reachable_avl_witness:
  "reach three_world \<and> objs three_world 0 = Some three_map \<and>
   (\<exists>T. root three_map = rootp T \<and> repr (cells (hp three_world)) None T \<and> avl T)"
  using reachable_avl[OF three_reach, of 0 three_map] three_reach by (simp add: three_world_def)

section \<open>The order of a traversal in every reachable world\<close>

text \<open>Claim C2. In every reachable world and for every map in it, the loop from \<open>begin()\<close> to
  \<open>end()\<close> by \<open>++\<close> returns, and what it visits are the entries of the map's tree from left to
  right; their keys are strictly increasing for the map's comparator, and the tree is
  ordered at every node.\<close>

theorem reachable_iteration_sorted:
  "reach w \<Longrightarrow> objs w i = Some m \<Longrightarrow>
   \<exists>T. root m = rootp T \<and> repr (cells (hp w)) None T \<and>
       (map_begin (hp w) m i \<bind> (\<lambda>b. traverse w b (map_end i))) = Some (Returns (entries T)) \<and>
       sorted_wrt (cmp m) (map fst (entries T)) \<and> ordered (cmp m) T"
proof -
  assume r: "reach w" and o: "objs w i = Some m"
  then obtain T where T: "wf_map (cells (hp w)) m T" using reach_tree by blast
  have "(map_begin (hp w) m i \<bind> (\<lambda>b. traverse w b (map_end i))) = Some (Returns (entries T))"
    by (rule traverse_all[OF o wf_map_zrepr[OF T]])
  moreover have "sorted_wrt (cmp m) (map fst (entries T))" "ordered (cmp m) T"
    using T bst_ordered[of "cmp m" T] by (auto simp: wf_map_def bst_def keys_def)
  ultimately show ?thesis using T by (auto simp: wf_map_def)
qed

theorem reachable_iteration_sorted_witness:
  "reach three_world \<and> objs three_world 0 = Some three_map \<and>
   (\<exists>T. root three_map = rootp T \<and> repr (cells (hp three_world)) None T \<and>
       (map_begin (hp three_world) three_map 0 \<bind> (\<lambda>b. traverse three_world b (map_end 0))) =
         Some (Returns (entries T)) \<and>
       sorted_wrt (cmp three_map) (map fst (entries T)) \<and> ordered (cmp three_map) T) \<and>
   (map_begin (hp three_world) three_map 0 \<bind> (\<lambda>b. traverse three_world b (map_end 0))) =
     Some (Returns [(1, 10), (2, 20), (3, 30)])"
proof -
  have "(map_begin (hp three_world) three_map 0 \<bind> (\<lambda>b. traverse three_world b (map_end 0))) =
     Some (Returns [(1, 10), (2, 20), (3, 30)])"
    by (simp add: iter_simps three_world_def three_heap_def three_cells_def three_map_def cong: bind_weak_cong)
  then show ?thesis
    using reachable_iteration_sorted[OF three_reach, of 0 three_map] three_reach
    by (simp add: three_world_def)
qed

section \<open>Insertion\<close>

text \<open>Claim C3. On a well-formed map, in a heap whose nodes fit the address space: when the
  tree holds an entry whose key is equivalent to the key of \<open>v\<close>, \<open>insert\<close> returns a cursor to that node and \<open>false\<close>, and neither the heap
  nor the members change. When no entry has an equivalent key and the allocator can give a
  node, \<open>insert\<close> returns a cursor to a new node and \<open>true\<close>; the new tree has the old entries,
  at their old nodes, with \<open>v\<close> put between them at the new node, exactly one cell is added,
  \<open>nodeCount\<close> grows by one, and no cell outside the map changes. When the allocator has
  nothing to give, \<open>bad_alloc\<close> leaves heap and members as they were.\<close>

theorem insert_spec:
  assumes "wf_map (cells h) m T" and "heap_ok h" and "fits h"
  shows "(\<forall>a kv. (a, kv) \<in> set (inorder T) \<and> equiv_key (cmp m) (fst v) (fst kv) \<longrightarrow>
            map_insert h m this v =
              Some (h, m, Returns (\<lparr>nodePtr = Some a, owner = Some this\<rparr>, False))) \<and>
         ((\<forall>e \<in> set (entries T). \<not> equiv_key (cmp m) (fst v) (fst e)) \<longrightarrow>
            (if avail h = 0 then map_insert h m this v = Some (h, m, Throws bad_alloc)
             else \<exists>h' m' T' xs ys.
                    map_insert h m this v =
                      Some (h', m', Returns (\<lparr>nodePtr = Some (nxt h), owner = Some this\<rparr>, True)) \<and>
                    wf_map (cells h') m' T' \<and>
                    inorder T = xs @ ys \<and> inorder T' = xs @ (nxt h, v) # ys \<and>
                    nodeCount m' = nodeCount m + 1 \<and> cmp m' = cmp m \<and>
                    nxt h \<notin> dom (cells h) \<and> dom (cells h') = insert (nxt h) (dom (cells h)) \<and>
                    (\<forall>a. a \<in> dom (cells h) \<and> a \<notin> addrs T \<longrightarrow> cells h' a = cells h a)))"
proof (intro conjI allI impI)
  fix a kv
  assume "(a, kv) \<in> set (inorder T) \<and> equiv_key (cmp m) (fst v) (fst kv)"
  then have "find (\<lambda>e. equiv_key (cmp m) (fst v) (fst (snd e))) (inorder T) = Some (a, kv)"
    using find_present[OF assms(1)] by blast
  then show "map_insert h m this v = Some (h, m, Returns (\<lparr>nodePtr = Some a, owner = Some this\<rparr>, False))"
    using map_insert_spec[OF assms, where v = v and this = this] by simp
next
  assume "\<forall>e \<in> set (entries T). \<not> equiv_key (cmp m) (fst v) (fst e)"
  then have fn: "find (\<lambda>e. equiv_key (cmp m) (fst v) (fst (snd e))) (inorder T) = None"
    by (rule find_absent)
  note ms = map_insert_spec[OF assms, where v = v and this = this, unfolded fn, simplified]
  show "if avail h = 0 then map_insert h m this v = Some (h, m, Throws bad_alloc)
        else \<exists>h' m' T' xs ys.
               map_insert h m this v =
                 Some (h', m', Returns (\<lparr>nodePtr = Some (nxt h), owner = Some this\<rparr>, True)) \<and>
               wf_map (cells h') m' T' \<and>
               inorder T = xs @ ys \<and> inorder T' = xs @ (nxt h, v) # ys \<and>
               nodeCount m' = nodeCount m + 1 \<and> cmp m' = cmp m \<and>
               nxt h \<notin> dom (cells h) \<and> dom (cells h') = insert (nxt h) (dom (cells h)) \<and>
               (\<forall>a. a \<in> dom (cells h) \<and> a \<notin> addrs T \<longrightarrow> cells h' a = cells h a)"
  proof (cases "avail h = 0")
    case True
    then show ?thesis using ms by simp
  next
    case False
    with ms obtain h' m' T' xs ys where r:
      "map_insert h m this v =
         Some (h', m', Returns (\<lparr>nodePtr = Some (nxt h), owner = Some this\<rparr>, True))"
      "wf_map (cells h') m' T'" "step_ok h T h' T'"
      "inorder T = xs @ ys" "inorder T' = xs @ (nxt h, v) # ys"
      "nodeCount m' = nodeCount m + 1" "cmp m' = cmp m"
      "dom (cells h') = insert (nxt h) (dom (cells h))"
      by auto
    show ?thesis using False
      apply simp
      apply (rule exI[of _ h'])
      apply (rule exI[of _ m'])
      apply (rule conjI[OF r(1)])
      apply (rule exI[of _ T'])
      apply (rule conjI[OF r(2)])
      apply (rule exI[of _ xs])
      apply (rule exI[of _ ys])
      using r(4,5,6,7,8) step_ok_frame[OF r(3) assms(2)] heap_ok_fresh[OF assms(2)] by simp
  qed
qed

theorem insert_spec_witness:
  "wf_map (cells three_heap) three_map three_tree \<and> heap_ok three_heap \<and> fits three_heap \<and>
   map_insert three_heap three_map 0 (2, 99) =
     Some (three_heap, three_map, Returns (\<lparr>nodePtr = Some 1, owner = Some 0\<rparr>, False)) \<and>
   (\<exists>h' m' T' xs ys.
      map_insert three_heap three_map 0 (5, 50) =
        Some (h', m', Returns (\<lparr>nodePtr = Some 3, owner = Some 0\<rparr>, True)) \<and>
      wf_map (cells h') m' T' \<and>
      inorder three_tree = xs @ ys \<and> inorder T' = xs @ (3, (5, 50)) # ys \<and>
      nodeCount m' = 4 \<and> dom (cells h') = insert 3 (dom (cells three_heap)))"
proof (intro conjI)
  show "wf_map (cells three_heap) three_map three_tree" by (rule three_wf)
  show "heap_ok three_heap" by (rule three_ok)
  show "fits three_heap" by (rule three_fits)
  have q: "(1, (2, 20)) \<in> set (inorder three_tree) \<and>
           equiv_key (cmp three_map) (fst (2 :: nat, 99 :: nat)) (fst (2 :: nat, 20 :: nat))"
    by (simp add: three_tree_def equiv_key_def three_map_def)
  show "map_insert three_heap three_map 0 (2, 99) =
     Some (three_heap, three_map, Returns (\<lparr>nodePtr = Some 1, owner = Some 0\<rparr>, False))"
    using insert_spec[OF three_wf three_ok three_fits, THEN conjunct1, rule_format, OF q, of 0] by simp
  have p: "\<forall>e \<in> set (entries three_tree). \<not> equiv_key (cmp three_map) (fst (5 :: nat, 50 :: nat)) (fst e)"
    by (simp add: three_tree_def equiv_key_def three_map_def entries_def)
  from insert_spec[OF three_wf three_ok three_fits, THEN conjunct2, THEN mp, OF p, of 0]
  show "\<exists>h' m' T' xs ys.
      map_insert three_heap three_map 0 (5, 50) =
        Some (h', m', Returns (\<lparr>nodePtr = Some 3, owner = Some 0\<rparr>, True)) \<and>
      wf_map (cells h') m' T' \<and>
      inorder three_tree = xs @ ys \<and> inorder T' = xs @ (3, (5, 50)) # ys \<and>
      nodeCount m' = 4 \<and> dom (cells h') = insert 3 (dom (cells three_heap))"
    apply (simp add: three_heap_def three_map_def)
    apply (elim exE conjE)
    subgoal for h' m' T' xs ys
      apply (rule exI[of _ h'])
      apply (rule exI[of _ m'])
      apply simp
      apply (rule exI[of _ T'])
      apply simp
      apply (rule exI[of _ xs])
      apply (rule exI[of _ ys])
      by simp
    done
qed

section \<open>Erasing at a cursor\<close>

text \<open>Claim C4, as the code has it. \<open>erase\<close> compares the cursor's owner with the map and its
  node with null, and nothing else: a cursor of another map and an end cursor get
  \<open>invalid_iterator\<close> with heap and members unchanged. A cursor to a node of this map's tree
  (the map well formed, the heap within the address space) removes that node and no other:
  the remaining entries keep their nodes and their order,
  the node's cell is released, \<open>nodeCount\<close> drops by one, and no cell outside the map
  changes. The map keeps no record of the nodes it has deleted, so a cursor to a deleted
  node is not told apart: \<open>erase\<close> reads through it.\<close>

theorem erase_spec:
  assumes "wf_map (cells h) m T" and "heap_ok h" and "fits h"
  shows "(owner pos \<noteq> Some this \<or> nodePtr pos = None \<longrightarrow>
            map_erase h m this pos = Some (h, m, Throws invalid_iterator)) \<and>
         (\<forall>z. z \<in> addrs T \<longrightarrow>
            (\<exists>h' m' T' xs kv ys.
               map_erase h m this \<lparr>nodePtr = Some z, owner = Some this\<rparr> = Some (h', m', Returns ()) \<and>
               wf_map (cells h') m' T' \<and>
               inorder T = xs @ (z, kv) # ys \<and> inorder T' = xs @ ys \<and>
               nodeCount m' = nodeCount m - 1 \<and> cmp m' = cmp m \<and>
               dom (cells h') = dom (cells h) - {z} \<and>
               (\<forall>a. a \<in> dom (cells h) \<and> a \<notin> addrs T \<longrightarrow> cells h' a = cells h a)))"
proof (intro conjI allI impI)
  assume "owner pos \<noteq> Some this \<or> nodePtr pos = None"
  then show "map_erase h m this pos = Some (h, m, Throws invalid_iterator)"
    by (auto simp: map_erase_def)
next
  fix z assume zin: "z \<in> addrs T"
  from map_erase_spec[OF assms zin, of this]
  show "\<exists>h' m' T' xs kv ys.
          map_erase h m this \<lparr>nodePtr = Some z, owner = Some this\<rparr> = Some (h', m', Returns ()) \<and>
          wf_map (cells h') m' T' \<and>
          inorder T = xs @ (z, kv) # ys \<and> inorder T' = xs @ ys \<and>
          nodeCount m' = nodeCount m - 1 \<and> cmp m' = cmp m \<and>
          dom (cells h') = dom (cells h) - {z} \<and>
          (\<forall>a. a \<in> dom (cells h) \<and> a \<notin> addrs T \<longrightarrow> cells h' a = cells h a)"
    apply (elim exE conjE)
    subgoal for h' m' T' xs kv ys
      apply (rule exI[of _ h'])
      apply (rule exI[of _ m'])
      apply (rule exI[of _ T'])
      apply (rule exI[of _ xs])
      apply (rule exI[of _ kv])
      apply (rule exI[of _ ys])
      using step_ok_frame[of h T h' T'] assms(2) by simp
    done
qed

theorem erase_spec_witness:
  "wf_map (cells three_heap) three_map three_tree \<and> heap_ok three_heap \<and> fits three_heap \<and>
   map_erase three_heap three_map 0 (map_end 0) = Some (three_heap, three_map, Throws invalid_iterator) \<and>
   map_erase three_heap three_map 0 \<lparr>nodePtr = Some 1, owner = Some 9\<rparr> =
     Some (three_heap, three_map, Throws invalid_iterator) \<and>
   (\<exists>h' m' T' xs kv ys.
      map_erase three_heap three_map 0 \<lparr>nodePtr = Some 1, owner = Some 0\<rparr> = Some (h', m', Returns ()) \<and>
      wf_map (cells h') m' T' \<and>
      inorder three_tree = xs @ (1, kv) # ys \<and> inorder T' = xs @ ys \<and>
      nodeCount m' = 2 \<and> dom (cells h') = dom (cells three_heap) - {1})"
proof (intro conjI)
  show "wf_map (cells three_heap) three_map three_tree" by (rule three_wf)
  show "heap_ok three_heap" by (rule three_ok)
  show "fits three_heap" by (rule three_fits)
  show "map_erase three_heap three_map 0 (map_end 0) = Some (three_heap, three_map, Throws invalid_iterator)"
    using erase_spec[OF three_wf three_ok three_fits, where this = 0 and pos = "map_end 0", THEN conjunct1]
    by (simp add: map_end_def)
  show "map_erase three_heap three_map 0 \<lparr>nodePtr = Some 1, owner = Some 9\<rparr> =
     Some (three_heap, three_map, Throws invalid_iterator)"
    using erase_spec[OF three_wf three_ok three_fits, where this = 0 and pos = "\<lparr>nodePtr = Some 1, owner = Some 9\<rparr>",
        THEN conjunct1]
    by simp
  have z: "1 \<in> addrs three_tree" by (simp add: three_tree_def)
  from erase_spec[OF three_wf three_ok three_fits, where this = 0 and pos = "map_end 0", THEN conjunct2, rule_format, OF z]
  show "\<exists>h' m' T' xs kv ys.
      map_erase three_heap three_map 0 \<lparr>nodePtr = Some 1, owner = Some 0\<rparr> = Some (h', m', Returns ()) \<and>
      wf_map (cells h') m' T' \<and>
      inorder three_tree = xs @ (1, kv) # ys \<and> inorder T' = xs @ ys \<and>
      nodeCount m' = 2 \<and> dom (cells h') = dom (cells three_heap) - {1}"
    apply (elim exE conjE)
    subgoal for h' m' T' xs kv ys
      apply (rule exI[of _ h'])
      apply (rule exI[of _ m'])
      apply (rule exI[of _ T'])
      apply (rule exI[of _ xs])
      apply (rule exI[of _ kv])
      apply (rule exI[of _ ys])
      by (simp add: three_map_def)
    done
qed

text \<open>A cursor to a deleted node: the node 2 of the small map is erased, and \<open>erase\<close> is called
  again with the same cursor. The second call reads the released node, which is undefined;
  it does not throw \<open>invalid_iterator\<close>.\<close>

theorem erase_stale_cursor:
  "map_erase three_heap three_map 0 \<lparr>nodePtr = Some 2, owner = Some 0\<rparr> =
     Some (erased_heap, erased_map, Returns ()) \<and>
   map_erase erased_heap erased_map 0 \<lparr>nodePtr = Some 2, owner = Some 0\<rparr> = None \<and>
   map_erase erased_heap erased_map 0 \<lparr>nodePtr = Some 2, owner = Some 0\<rparr> \<noteq>
     Some (erased_heap, erased_map, Throws invalid_iterator)"
  by (simp add: map_erase_def eraseNode_def transplant_def delete_Node_def exec_simps
      three_heap_def three_cells_def three_map_def erased_heap_def erased_map_def fun_eq_iff
      cong: bind_weak_cong)

section \<open>Copy assignment\<close>

text \<open>Claim C5, as the code has it. \<open>operator=\<close> from another map calls \<open>clear()\<close> first and
  clones the source afterwards; there is no temporary. For a well-formed receiver with
  tree \<open>T\<close> and a well-formed source with tree \<open>To\<close> that share no node, in a heap within
  the address space, the call returns, every node of \<open>T\<close> is released whatever happens
  next, and the source keeps its tree. The
  clone has the nodes it needs exactly when the source has no more nodes than the
  allocator can give after the release (\<open>avail h + tsize T\<close>): then the receiver gets a
  tree with the entries of the source, its size and its comparator. Otherwise \<open>bad_alloc\<close>
  leaves the call with the receiver empty: its former entries are gone.\<close>

theorem assign_clears_first:
  assumes "wf_map (cells h) m T" and "wf_map (cells h) mo To"
    and "addrs T \<inter> addrs To = {}" and "heap_ok h" and "fits h" and "this \<noteq> that"
  shows "\<exists>h' m' res T'.
           map_assign h this m that mo = Some (h', m', res) \<and>
           wf_map (cells h') m' T' \<and> wf_map (cells h') mo To \<and> heap_ok h' \<and>
           (\<forall>a. a \<in> addrs T \<longrightarrow> cells h' a = None) \<and>
           (if tsize To \<le> avail h + tsize T
            then res = Returns () \<and> entries T' = entries To \<and> addrs T' \<inter> addrs To = {} \<and>
                 nodeCount m' = nodeCount mo \<and> cmp m' = cmp mo
            else res = Throws bad_alloc \<and> T' = Lf \<and> root m' = None \<and> nodeCount m' = 0)"
proof -
  have lt: "\<forall>a \<in> addrs To. a < nxt h" using wf_map_addrs[OF assms(2) assms(4)] by blast
  from map_assign_spec[OF assms] show ?thesis
    apply (elim exE conjE)
    subgoal for h' m' res T'
      apply (rule exI[of _ h'])
      apply (rule exI[of _ m'])
      apply (rule exI[of _ res])
      apply (rule exI[of _ T'])
      using lt by (fastforce simp: addrs_clone split: if_splits)
    done
qed

theorem assign_clears_first_witness:
  "wf_map (cells two_heap) one_map one_tree \<and> wf_map (cells two_heap) three_map three_tree \<and>
   addrs one_tree \<inter> addrs three_tree = {} \<and> heap_ok two_heap \<and> fits two_heap \<and> (1 :: addr) \<noteq> 0 \<and>
   (\<exists>h' m' T'.
      map_assign two_heap 1 one_map 0 three_map = Some (h', m', Throws bad_alloc) \<and>
      wf_map (cells h') m' T' \<and> wf_map (cells h') three_map three_tree \<and>
      cells h' 3 = None \<and> T' = Lf \<and> root m' = None \<and> nodeCount m' = 0)"
proof (intro conjI)
  show "wf_map (cells two_heap) one_map one_tree" by (rule two_wf_one)
  show "wf_map (cells two_heap) three_map three_tree" by (rule two_wf_three)
  show "addrs one_tree \<inter> addrs three_tree = {}" by (rule two_disjoint)
  show "heap_ok two_heap" by (rule two_ok)
  show "fits two_heap" by (rule two_fits)
  show ne: "(1 :: addr) \<noteq> 0" by simp
  from assign_clears_first[OF two_wf_one two_wf_three two_disjoint two_ok two_fits ne]
  show "\<exists>h' m' T'.
      map_assign two_heap 1 one_map 0 three_map = Some (h', m', Throws bad_alloc) \<and>
      wf_map (cells h') m' T' \<and> wf_map (cells h') three_map three_tree \<and>
      cells h' 3 = None \<and> T' = Lf \<and> root m' = None \<and> nodeCount m' = 0"
    apply (elim exE conjE)
    subgoal for h' m' res T'
      apply (rule exI[of _ h'])
      apply (rule exI[of _ m'])
      apply (rule exI[of _ T'])
      by (simp add: two_heap_def one_tree_def three_tree_def)
    done
qed

text \<open>The map at 1 holds the key 7, the map at 0 three entries, and the allocator can give
  one node. The assignment of the map at 0 to the map at 1 throws \<open>bad_alloc\<close>, and the map
  at 1 has lost its entry: had the clone been made before the release, it would still hold
  it.\<close>

theorem assign_failure_empties_receiver:
  "map_at two_heap one_map 7 = Some (Returns 70) \<and>
   map_assign two_heap 1 one_map 0 three_map = Some (failed_heap, failed_map, Throws bad_alloc) \<and>
   map_at failed_heap failed_map 7 = Some (Throws index_out_of_bound) \<and>
   map_empty failed_map \<and> cells failed_heap 3 = None"
  by (simp add: assign_simps at_simps map_empty_def two_heap_def three_cells_def one_map_def three_map_def
      failed_heap_def failed_map_def fun_eq_iff cong: bind_weak_cong)

section \<open>The cursors at the two ends\<close>

text \<open>Claim C6. For a well-formed map \<open>m\<close> at address \<open>i\<close>: \<open>++\<close> on the end cursor throws
  \<open>invalid_iterator\<close>, and so does \<open>--\<close> on the cursor that \<open>begin()\<close> returns, in the prefix and
  in the postfix form. \<open>--\<close> on the end cursor of a map without entries throws
  \<open>invalid_iterator\<close>; on a map with entries it gives the cursor to the node of the last
  entry, whose key is greater than the key of every other entry.\<close>

theorem cursor_boundaries:
  assumes "objs w i = Some m" and "wf_map (cells (hp w)) m T"
  shows "iter_inc w (map_end i) = Some (Throws invalid_iterator) \<and>
         iter_post_inc w (map_end i) = Some (Throws invalid_iterator) \<and>
         (\<exists>b. map_begin (hp w) m i = Some b \<and>
              iter_dec w b = Some (Throws invalid_iterator) \<and>
              iter_post_dec w b = Some (Throws invalid_iterator)) \<and>
         (if entries T = [] then iter_dec w (map_end i) = Some (Throws invalid_iterator)
          else iter_dec w (map_end i) =
                 Some (Returns \<lparr>nodePtr = Some (fst (last (inorder T))), owner = Some i\<rparr>) \<and>
               snd (last (inorder T)) = last (entries T) \<and>
               (\<forall>e \<in> set (butlast (entries T)). cmp m (fst e) (fst (last (entries T)))))"
proof -
  have z: "zrepr (cells (hp w)) (root m) T []" using assms(2) by (rule wf_map_zrepr)
  have rp: "repr (cells (hp w)) None T" "root m = rootp T" "bst (cmp m) T"
    using assms(2) by (auto simp: wf_map_def)
  have 1: "iter_inc w (map_end i) = Some (Throws invalid_iterator)"
    by (simp add: iter_inc_def map_end_def)
  have 2: "iter_post_inc w (map_end i) = Some (Throws invalid_iterator)"
    by (simp add: iter_post_inc_def 1)
  obtain b where b: "map_begin (hp w) m i = Some b"
    using minNode_repr[OF rp(1)] by (simp add: map_begin_def rp(2))
  have 3: "iter_dec w b = Some (Throws invalid_iterator)"
    by (rule dec_begin_throws[OF assms(1) z b])
  have 4: "iter_post_dec w b = Some (Throws invalid_iterator)"
    by (simp add: iter_post_dec_def 3)
  have mx: "maxNode (hp w) (root m) = Some (rmost T)"
    using maxNode_repr[OF rp(1)] by (simp add: rp(2))
  have 5: "if entries T = [] then iter_dec w (map_end i) = Some (Throws invalid_iterator)
          else iter_dec w (map_end i) =
                 Some (Returns \<lparr>nodePtr = Some (fst (last (inorder T))), owner = Some i\<rparr>) \<and>
               snd (last (inorder T)) = last (entries T) \<and>
               (\<forall>e \<in> set (butlast (entries T)). cmp m (fst e) (fst (last (entries T))))"
  proof (cases "T = Lf")
    case True
    then show ?thesis using mx assms(1) by (simp add: iter_dec_def map_end_def entries_def)
  next
    case False
    then have ne: "entries T \<noteq> []" by (simp add: entries_def)
    have d: "iter_dec w (map_end i) =
          Some (Returns \<lparr>nodePtr = Some (fst (last (inorder T))), owner = Some i\<rparr>)"
      using mx assms(1) rmost_last[OF False] by (simp add: iter_dec_def map_end_def)
    have l: "snd (last (inorder T)) = last (entries T)"
      using False by (simp add: entries_def last_map)
    have g: "\<forall>e \<in> set (butlast (entries T)). cmp m (fst e) (fst (last (entries T)))"
      by (rule sorted_last[OF rp(3)[unfolded bst_def keys_def] ne])
    show ?thesis using ne d l g by simp
  qed
  show ?thesis using 1 2 b 3 4 5 by blast
qed

theorem cursor_boundaries_witness:
  "objs three_world 0 = Some three_map \<and> wf_map (cells (hp three_world)) three_map three_tree \<and>
   iter_inc three_world (map_end 0) = Some (Throws invalid_iterator) \<and>
   (\<exists>b. map_begin (hp three_world) three_map 0 = Some b \<and>
        iter_dec three_world b = Some (Throws invalid_iterator)) \<and>
   iter_dec three_world (map_end 0) = Some (Returns \<lparr>nodePtr = Some 2, owner = Some 0\<rparr>) \<and>
   iter_deref (hp three_world) \<lparr>nodePtr = Some 2, owner = Some 0\<rparr> = Some (Returns (3, 30))"
proof -
  have o: "objs three_world 0 = Some three_map" by (simp add: three_world_def)
  have w: "wf_map (cells (hp three_world)) three_map three_tree"
    using three_wf by (simp add: three_world_def)
  have d: "iter_deref (hp three_world) \<lparr>nodePtr = Some 2, owner = Some 0\<rparr> = Some (Returns (3, 30))"
    by (simp add: iter_deref_def rd_def three_world_def three_heap_def three_cells_def)
  from cursor_boundaries[OF o w] show ?thesis
    apply (elim exE conjE)
    subgoal for b
      apply (intro conjI o w d)
        apply simp
       apply (rule exI[of _ b])
       apply simp
      by (simp add: three_tree_def entries_def)
    done
qed

section \<open>Access by key\<close>

text \<open>Claim C7. On a well-formed map, in a heap whose nodes fit the address space: when the
  tree holds an entry with a key equivalent to \<open>k\<close>, \<open>at\<close> and both forms of \<open>operator[]\<close> return its mapped value, and \<open>operator[]\<close>
  changes neither heap nor members. When no entry has an equivalent key, \<open>at\<close> and the const
  \<open>operator[]\<close> throw \<open>index_out_of_bound\<close> (they take the heap and give none back: nothing
  is inserted), and the non-const \<open>operator[]\<close>, when the allocator can give a node, puts
  the entry \<open>(k, dflt)\<close> in a new node, so that \<open>nodeCount\<close> grows by one, and returns
  \<open>dflt\<close>; when the allocator has nothing to give, \<open>bad_alloc\<close> leaves heap and members as
  they were.\<close>

theorem lookup_spec:
  assumes "wf_map (cells h) m T" and "heap_ok h" and "fits h"
  shows "(\<forall>a kv. (a, kv) \<in> set (inorder T) \<and> equiv_key (cmp m) k (fst kv) \<longrightarrow>
            map_at h m k = Some (Returns (snd kv)) \<and>
            map_index_const h m k = Some (Returns (snd kv)) \<and>
            map_index h m this dflt k = Some (h, m, Returns (snd kv))) \<and>
         ((\<forall>e \<in> set (entries T). \<not> equiv_key (cmp m) k (fst e)) \<longrightarrow>
            map_at h m k = Some (Throws index_out_of_bound) \<and>
            map_index_const h m k = Some (Throws index_out_of_bound) \<and>
            (if avail h = 0 then map_index h m this dflt k = Some (h, m, Throws bad_alloc)
             else \<exists>h' m' T' xs ys.
                    map_index h m this dflt k = Some (h', m', Returns dflt) \<and>
                    wf_map (cells h') m' T' \<and>
                    inorder T = xs @ ys \<and> inorder T' = xs @ (nxt h, (k, dflt)) # ys \<and>
                    nodeCount m' = nodeCount m + 1 \<and> cmp m' = cmp m \<and>
                    dom (cells h') = insert (nxt h) (dom (cells h))))"
proof (intro conjI allI impI)
  fix a kv
  assume "(a, kv) \<in> set (inorder T) \<and> equiv_key (cmp m) k (fst kv)"
  then have f: "find (\<lambda>e. equiv_key (cmp m) k (fst (snd e))) (inorder T) = Some (a, kv)"
    using find_present[OF assms(1)] by blast
  show "map_at h m k = Some (Returns (snd kv))"
    using map_at_spec[OF assms(1), of k] f by simp
  show "map_index_const h m k = Some (Returns (snd kv))"
    using map_index_const_spec[OF assms(1), of k] f by simp
  show "map_index h m this dflt k = Some (h, m, Returns (snd kv))"
    using map_index_spec[OF assms, where k = k and this = this and dflt = dflt] f by simp
next
  assume "\<forall>e \<in> set (entries T). \<not> equiv_key (cmp m) k (fst e)"
  then have fn: "find (\<lambda>e. equiv_key (cmp m) k (fst (snd e))) (inorder T) = None"
    by (rule find_absent)
  show "map_at h m k = Some (Throws index_out_of_bound)"
    using map_at_spec[OF assms(1), of k] fn by simp
  show "map_index_const h m k = Some (Throws index_out_of_bound)"
    using map_index_const_spec[OF assms(1), of k] fn by simp
  note ms = map_index_spec[OF assms, where k = k and this = this and dflt = dflt, unfolded fn, simplified]
  show "if avail h = 0 then map_index h m this dflt k = Some (h, m, Throws bad_alloc)
        else \<exists>h' m' T' xs ys.
               map_index h m this dflt k = Some (h', m', Returns dflt) \<and>
               wf_map (cells h') m' T' \<and>
               inorder T = xs @ ys \<and> inorder T' = xs @ (nxt h, (k, dflt)) # ys \<and>
               nodeCount m' = nodeCount m + 1 \<and> cmp m' = cmp m \<and>
               dom (cells h') = insert (nxt h) (dom (cells h))"
  proof (cases "avail h = 0")
    case True
    then show ?thesis using ms by simp
  next
    case False
    with ms obtain h' m' T' xs ys where r:
      "map_index h m this dflt k = Some (h', m', Returns dflt)"
      "wf_map (cells h') m' T'"
      "inorder T = xs @ ys" "inorder T' = xs @ (nxt h, (k, dflt)) # ys"
      "nodeCount m' = nodeCount m + 1" "cmp m' = cmp m"
      "dom (cells h') = insert (nxt h) (dom (cells h))"
      by auto
    show ?thesis using False
      apply simp
      apply (rule exI[of _ h'])
      apply (rule exI[of _ m'])
      apply (rule conjI[OF r(1)])
      apply (rule exI[of _ T'])
      apply (rule conjI[OF r(2)])
      apply (rule exI[of _ xs])
      apply (rule exI[of _ ys])
      using r(3,4,5,6,7) by simp
  qed
qed

theorem lookup_spec_witness:
  "wf_map (cells three_heap) three_map three_tree \<and> heap_ok three_heap \<and> fits three_heap \<and>
   map_at three_heap three_map 2 = Some (Returns 20) \<and>
   map_index_const three_heap three_map 2 = Some (Returns 20) \<and>
   map_index three_heap three_map 0 0 2 = Some (three_heap, three_map, Returns 20) \<and>
   map_at three_heap three_map 5 = Some (Throws index_out_of_bound) \<and>
   map_index_const three_heap three_map 5 = Some (Throws index_out_of_bound) \<and>
   (\<exists>h' m' T' xs ys.
      map_index three_heap three_map 0 0 5 = Some (h', m', Returns 0) \<and>
      wf_map (cells h') m' T' \<and>
      inorder three_tree = xs @ ys \<and> inorder T' = xs @ (3, (5, 0)) # ys \<and>
      nodeCount m' = 4 \<and> dom (cells h') = insert 3 (dom (cells three_heap)))"
proof -
  have q: "(1, (2, 20)) \<in> set (inorder three_tree) \<and>
           equiv_key (cmp three_map) 2 (fst (2 :: nat, 20 :: nat))"
    by (simp add: three_tree_def equiv_key_def three_map_def)
  have p: "\<forall>e \<in> set (entries three_tree). \<not> equiv_key (cmp three_map) 5 (fst e)"
    by (simp add: three_tree_def equiv_key_def three_map_def entries_def)
  note a = lookup_spec[OF three_wf three_ok three_fits, THEN conjunct1, rule_format, OF q, of 0 0]
  note b = lookup_spec[OF three_wf three_ok three_fits, THEN conjunct2, THEN mp, OF p, of 0 0]
  have c: "\<exists>h' m' T' xs ys.
      map_index three_heap three_map 0 0 5 = Some (h', m', Returns 0) \<and>
      wf_map (cells h') m' T' \<and>
      inorder three_tree = xs @ ys \<and> inorder T' = xs @ (3, (5, 0)) # ys \<and>
      nodeCount m' = 4 \<and> dom (cells h') = insert 3 (dom (cells three_heap))"
    using b[THEN conjunct2, THEN conjunct2]
    apply (simp add: three_heap_def three_map_def)
    apply (elim exE conjE)
    subgoal for h' m' T' xs ys
      apply (rule exI[of _ h'])
      apply (rule exI[of _ m'])
      apply simp
      apply (rule exI[of _ T'])
      apply simp
      apply (rule exI[of _ xs])
      apply (rule exI[of _ ys])
      by simp
    done
  show ?thesis using three_wf three_ok three_fits a b[THEN conjunct1] b[THEN conjunct2, THEN conjunct1] c by simp
qed

section \<open>A copy shares nothing with its source\<close>

text \<open>Claim C8. In a heap whose nodes fit the address space, copy construction from a
  well-formed map and copy assignment between two well-formed maps, when the allocator can
  give the nodes, yield a well-formed map whose tree has the entries of the source, in the
  same order, and no node in common with it;
  the source keeps its tree. And for two well-formed maps without a common node, as a copy
  and its source are, every mutation through one of them returns and leaves the other
  with the very tree it had, entry by entry: \<open>insert\<close>, \<open>operator[]\<close>, \<open>erase\<close> at a cursor
  to one of its nodes, \<open>clear\<close>, and a store to the mapped value of one of its nodes.\<close>

theorem copy_independent:
  assumes "wf_map (cells h) m1 T1" and "wf_map (cells h) m2 T2"
    and "addrs T1 \<inter> addrs T2 = {}" and "heap_ok h" and "fits h"
  shows "(tsize T1 \<le> avail h \<longrightarrow>
            (\<exists>h' m' T'. map_copy h m1 = Some (h', Returns m') \<and>
               wf_map (cells h') m' T' \<and> wf_map (cells h') m1 T1 \<and> wf_map (cells h') m2 T2 \<and>
               entries T' = entries T1 \<and> addrs T' \<inter> addrs T1 = {} \<and> addrs T' \<inter> addrs T2 = {})) \<and>
         (this \<noteq> that \<and> tsize T2 \<le> avail h + tsize T1 \<longrightarrow>
            (\<exists>h' m' T'. map_assign h this m1 that m2 = Some (h', m', Returns ()) \<and>
               wf_map (cells h') m' T' \<and> wf_map (cells h') m2 T2 \<and>
               entries T' = entries T2 \<and> addrs T' \<inter> addrs T2 = {})) \<and>
         (\<forall>v. \<exists>h' m' res T'. map_insert h m1 this v = Some (h', m', res) \<and>
               wf_map (cells h') m' T' \<and> wf_map (cells h') m2 T2 \<and> addrs T' \<inter> addrs T2 = {}) \<and>
         (\<forall>dflt k. \<exists>h' m' res T'. map_index h m1 this dflt k = Some (h', m', res) \<and>
               wf_map (cells h') m' T' \<and> wf_map (cells h') m2 T2 \<and> addrs T' \<inter> addrs T2 = {}) \<and>
         (\<forall>z. z \<in> addrs T1 \<longrightarrow>
            (\<exists>h' m' T'. map_erase h m1 this \<lparr>nodePtr = Some z, owner = Some this\<rparr> =
                 Some (h', m', Returns ()) \<and>
               wf_map (cells h') m' T' \<and> wf_map (cells h') m2 T2 \<and> addrs T' \<inter> addrs T2 = {})) \<and>
         (\<exists>h' m'. map_clear h m1 = Some (h', m') \<and>
               wf_map (cells h') m' Lf \<and> wf_map (cells h') m2 T2) \<and>
         (\<forall>z x. z \<in> addrs T1 \<longrightarrow>
            (\<exists>h' T'. assign_second h (Some z) x = Some h' \<and>
               wf_map (cells h') m1 T' \<and> wf_map (cells h') m2 T2 \<and> addrs T' \<inter> addrs T2 = {}))"
proof -
  have lt1: "\<And>a. a \<in> addrs T1 \<Longrightarrow> a < nxt h" using wf_map_addrs[OF assms(1) assms(4)] .
  have lt2: "\<And>a. a \<in> addrs T2 \<Longrightarrow> a < nxt h" using wf_map_addrs[OF assms(2) assms(4)] .
  have keep: "wf_map (cells h') m2 T2 \<and> addrs T' \<inter> addrs T2 = {}" if "step_ok h T1 h' T'" for h' T'
    using step_ok_other[OF that assms(4) assms(2) assms(3)] that assms(3) lt2
    by (fastforce simp: step_ok_def)
  have cp: "tsize T1 \<le> avail h \<longrightarrow>
            (\<exists>h' m' T'. map_copy h m1 = Some (h', Returns m') \<and>
               wf_map (cells h') m' T' \<and> wf_map (cells h') m1 T1 \<and> wf_map (cells h') m2 T2 \<and>
               entries T' = entries T1 \<and> addrs T' \<inter> addrs T1 = {} \<and> addrs T' \<inter> addrs T2 = {})"
  proof
    assume le: "tsize T1 \<le> avail h"
    from map_copy_spec[OF assms(1) assms(4) assms(5)] obtain h' res where r:
      "map_copy h m1 = Some (h', res)" "\<forall>a. a < nxt h \<longrightarrow> cells h' a = cells h a"
      "res = Returns \<lparr>root = rootp (clone_t (nxt h) T1), nodeCount = nodeCount m1, cmp = cmp m1\<rparr>"
      "wf_map (cells h') \<lparr>root = rootp (clone_t (nxt h) T1), nodeCount = nodeCount m1, cmp = cmp m1\<rparr>
         (clone_t (nxt h) T1)"
      using le by auto
    have k1: "wf_map (cells h') m1 T1"
      using wf_map_cong[of T1 "cells h'" "cells h" m1] r(2) lt1 assms(1) by simp
    have k2: "wf_map (cells h') m2 T2"
      using wf_map_cong[of T2 "cells h'" "cells h" m2] r(2) lt2 assms(2) by simp
    have d: "addrs (clone_t (nxt h) T1) \<inter> addrs T1 = {}" "addrs (clone_t (nxt h) T1) \<inter> addrs T2 = {}"
      using lt1 lt2 by (fastforce simp: addrs_clone)+
    show "\<exists>h' m' T'. map_copy h m1 = Some (h', Returns m') \<and>
               wf_map (cells h') m' T' \<and> wf_map (cells h') m1 T1 \<and> wf_map (cells h') m2 T2 \<and>
               entries T' = entries T1 \<and> addrs T' \<inter> addrs T1 = {} \<and> addrs T' \<inter> addrs T2 = {}"
      apply (rule exI[of _ h'])
      apply (rule exI[of _ "\<lparr>root = rootp (clone_t (nxt h) T1), nodeCount = nodeCount m1, cmp = cmp m1\<rparr>"])
      apply (rule exI[of _ "clone_t (nxt h) T1"])
      using r(1) r(4) k1 k2 d by (simp add: r(3))
  qed
  have as: "this \<noteq> that \<and> tsize T2 \<le> avail h + tsize T1 \<longrightarrow>
            (\<exists>h' m' T'. map_assign h this m1 that m2 = Some (h', m', Returns ()) \<and>
               wf_map (cells h') m' T' \<and> wf_map (cells h') m2 T2 \<and>
               entries T' = entries T2 \<and> addrs T' \<inter> addrs T2 = {})"
  proof
    assume a: "this \<noteq> that \<and> tsize T2 \<le> avail h + tsize T1"
    then have ne: "this \<noteq> that" by simp
    have lt: "\<forall>a \<in> addrs T2. a < nxt h" using lt2 by blast
    from map_assign_spec[OF assms(1) assms(2) assms(3) assms(4) assms(5) ne]
    show "\<exists>h' m' T'. map_assign h this m1 that m2 = Some (h', m', Returns ()) \<and>
               wf_map (cells h') m' T' \<and> wf_map (cells h') m2 T2 \<and>
               entries T' = entries T2 \<and> addrs T' \<inter> addrs T2 = {}"
      apply (elim exE conjE)
      subgoal for h' m' res T'
        apply (rule exI[of _ h'])
        apply (rule exI[of _ m'])
        apply (rule exI[of _ T'])
        using lt a by (fastforce simp: addrs_clone split: if_splits)
      done
  qed
  have ins: "\<exists>h' m' res T'. map_insert h m1 this v = Some (h', m', res) \<and>
               wf_map (cells h') m' T' \<and> wf_map (cells h') m2 T2 \<and> addrs T' \<inter> addrs T2 = {}" for v
    using map_insert_total[OF assms(1) assms(4) assms(5), of this v] keep by blast
  have idx: "\<exists>h' m' res T'. map_index h m1 this dflt k = Some (h', m', res) \<and>
               wf_map (cells h') m' T' \<and> wf_map (cells h') m2 T2 \<and> addrs T' \<inter> addrs T2 = {}" for dflt k
    using map_index_total[OF assms(1) assms(4) assms(5), of this dflt k] keep by blast
  have er: "\<exists>h' m' T'. map_erase h m1 this \<lparr>nodePtr = Some z, owner = Some this\<rparr> =
                 Some (h', m', Returns ()) \<and>
               wf_map (cells h') m' T' \<and> wf_map (cells h') m2 T2 \<and> addrs T' \<inter> addrs T2 = {}"
    if z: "z \<in> addrs T1" for z
  proof -
    obtain h' m' T' where e:
      "map_erase h m1 this \<lparr>nodePtr = Some z, owner = Some this\<rparr> = Some (h', m', Returns ())"
      "wf_map (cells h') m' T'" "step_ok h T1 h' T'"
      using map_erase_spec[OF assms(1) assms(4) assms(5) z, of this] by blast
    show ?thesis using e(1,2) keep[OF e(3)] by blast
  qed
  have cl: "\<exists>h' m'. map_clear h m1 = Some (h', m') \<and> wf_map (cells h') m' Lf \<and> wf_map (cells h') m2 T2"
  proof -
    obtain h' where c: "map_clear h m1 = Some (h', m1\<lparr>root := None, nodeCount := 0\<rparr>)"
      "wf_map (cells h') (m1\<lparr>root := None, nodeCount := 0\<rparr>) Lf" "step_ok h T1 h' Lf"
      using map_clear_spec[OF assms(1) assms(4)] by blast
    show ?thesis using c(1,2) keep[OF c(3)] by blast
  qed
  have wrv: "\<exists>h' T'. assign_second h (Some z) x = Some h' \<and>
               wf_map (cells h') m1 T' \<and> wf_map (cells h') m2 T2 \<and> addrs T' \<inter> addrs T2 = {}"
    if z: "z \<in> addrs T1" for z x
  proof -
    obtain h' T' where e: "assign_second h (Some z) x = Some h'" "wf_map (cells h') m1 T'" "step_ok h T1 h' T'"
      using assign_second_spec[OF assms(1) assms(4) z, of x] by blast
    show ?thesis using e(1,2) keep[OF e(3)] by blast
  qed
  show ?thesis using cp as ins idx er cl wrv by blast
qed

theorem copy_independent_witness:
  "wf_map (cells two_heap) one_map one_tree \<and> wf_map (cells two_heap) three_map three_tree \<and>
   addrs one_tree \<inter> addrs three_tree = {} \<and> heap_ok two_heap \<and> fits two_heap \<and>
   (\<exists>h' m' T'. map_copy two_heap one_map = Some (h', Returns m') \<and>
      wf_map (cells h') m' T' \<and> wf_map (cells h') one_map one_tree \<and>
      entries T' = [(7, 70)] \<and> addrs T' \<inter> addrs one_tree = {}) \<and>
   (\<exists>h' m' T'. map_erase two_heap one_map 1 \<lparr>nodePtr = Some 3, owner = Some 1\<rparr> =
        Some (h', m', Returns ()) \<and>
      wf_map (cells h') m' T' \<and> wf_map (cells h') three_map three_tree) \<and>
   (\<exists>h' m' res T'. map_insert two_heap one_map 1 (4, 40) = Some (h', m', res) \<and>
      wf_map (cells h') m' T' \<and> wf_map (cells h') three_map three_tree) \<and>
   (\<exists>h' T'. assign_second two_heap (Some 3) 71 = Some h' \<and>
      wf_map (cells h') one_map T' \<and> wf_map (cells h') three_map three_tree)"
proof -
  note t = copy_independent[OF two_wf_one two_wf_three two_disjoint two_ok two_fits, of 1 0]
  have le: "tsize one_tree \<le> avail two_heap" by (simp add: one_tree_def two_heap_def)
  have z: "3 \<in> addrs one_tree" by (simp add: one_tree_def)
  have c: "\<exists>h' m' T'. map_copy two_heap one_map = Some (h', Returns m') \<and>
      wf_map (cells h') m' T' \<and> wf_map (cells h') one_map one_tree \<and>
      entries T' = [(7, 70)] \<and> addrs T' \<inter> addrs one_tree = {}"
    using t[THEN conjunct1, THEN mp, OF le]
    apply (elim exE conjE)
    subgoal for h' m' T'
      apply (rule exI[of _ h'])
      apply (rule exI[of _ m'])
      apply (rule exI[of _ T'])
      by (simp add: one_tree_def entries_def)
    done
  have e: "\<exists>h' m' T'. map_erase two_heap one_map 1 \<lparr>nodePtr = Some 3, owner = Some 1\<rparr> =
        Some (h', m', Returns ()) \<and>
      wf_map (cells h') m' T' \<and> wf_map (cells h') three_map three_tree"
    using t[THEN conjunct2, THEN conjunct2, THEN conjunct2, THEN conjunct2, THEN conjunct1, rule_format, OF z]
    by blast
  have i: "\<exists>h' m' res T'. map_insert two_heap one_map 1 (4, 40) = Some (h', m', res) \<and>
      wf_map (cells h') m' T' \<and> wf_map (cells h') three_map three_tree"
    using t[THEN conjunct2, THEN conjunct2, THEN conjunct1, rule_format, of "(4, 40)"]
    by blast
  have s: "\<exists>h' T'. assign_second two_heap (Some 3) 71 = Some h' \<and>
      wf_map (cells h') one_map T' \<and> wf_map (cells h') three_map three_tree"
    using t[THEN conjunct2, THEN conjunct2, THEN conjunct2, THEN conjunct2, THEN conjunct2, THEN conjunct2,
        rule_format, OF z, of 71]
    by blast
  show ?thesis using two_wf_one two_wf_three two_disjoint two_ok two_fits c e i s by simp
qed

end
